theory Spec2Isabelle
  imports Main "HOL-Library.Word"
begin

section \<open>Bytes, Python slices and the struct module\<close>

text \<open>
  A Python \<^verbatim>\<open>bytes\<close>/\<^verbatim>\<open>bytearray\<close> is a list of 8-bit words. Python integers are
  unbounded; every offset and length of the program is non-negative, so they are
  \<^typ>\<open>nat\<close>. The exceptions the program can raise are values of \<open>error\<close>:
  \<^verbatim>\<open>Exception("Invalid metadata file")\<close>, \<^verbatim>\<open>struct.error\<close>, \<^verbatim>\<open>IndexError\<close> and
  \<^verbatim>\<open>UnicodeEncodeError\<close>.
\<close>

type_synonym byte = "8 word"
type_synonym bytes = "byte list"

datatype error = InvalidMetadataFile | StructError | IndexError | UnicodeEncodeError

text \<open>Little-endian value of a byte string, and the \<open>k\<close> low bytes of a number.\<close>

fun le_nat :: "bytes \<Rightarrow> nat" where
  "le_nat [] = 0"
| "le_nat (b # bs) = unat b + 256 * le_nat bs"

fun le_bytes :: "nat \<Rightarrow> nat \<Rightarrow> bytes" where
  "le_bytes 0 n = []"
| "le_bytes (Suc k) n = of_nat (n mod 256) # le_bytes k (n div 256)"

text \<open>
  \<^verbatim>\<open>b[i:j]\<close> on bytes with \<open>0 \<le> i\<close>, \<open>0 \<le> j\<close>: Python clamps both ends to the
  length and returns the empty string when \<open>j \<le> i\<close>; \<open>take\<close> and \<open>drop\<close> clamp the
  same way.
\<close>

definition slice :: "'a list \<Rightarrow> nat \<Rightarrow> nat \<Rightarrow> 'a list" where
  "slice f i j = take (j - i) (drop i f)"

text \<open>
  \<^verbatim>\<open>buf[i:j] = data\<close> on a bytearray with \<open>0 \<le> i \<le> j\<close>: the clamped slice is
  replaced by \<open>data\<close>, whatever its length; when \<open>i\<close> is beyond the end, \<open>data\<close> is
  appended at the end.
\<close>

definition slice_assign :: "bytes \<Rightarrow> nat \<Rightarrow> nat \<Rightarrow> bytes \<Rightarrow> bytes" where
  "slice_assign buf i j data = take i buf @ data @ drop j buf"

text \<open>
  \<^verbatim>\<open>struct.unpack_from("<I", f, off)\<close>, \<^verbatim>\<open>"<i"\<close> and \<^verbatim>\<open>"<II"\<close>: \<^verbatim>\<open>struct.error\<close> when
  the buffer does not hold the bytes.
\<close>

definition unpack_from_I :: "bytes \<Rightarrow> nat \<Rightarrow> error + nat" where
  "unpack_from_I f off =
     (if off + 4 \<le> length f then Inr (le_nat (take 4 (drop off f))) else Inl StructError)"

definition unpack_from_i :: "bytes \<Rightarrow> nat \<Rightarrow> error + int" where
  "unpack_from_i f off =
     (if off + 4 \<le> length f
      then (let u = le_nat (take 4 (drop off f))
            in Inr (if u < 2 ^ 31 then int u else int u - 2 ^ 32))
      else Inl StructError)"

definition unpack_from_II :: "bytes \<Rightarrow> nat \<Rightarrow> error + (nat \<times> nat)" where
  "unpack_from_II f off =
     (if off + 8 \<le> length f
      then Inr (le_nat (take 4 (drop off f)), le_nat (take 4 (drop (off + 4) f)))
      else Inl StructError)"

text \<open>
  \<^verbatim>\<open>struct.pack_into("<II", buf, pos, a, b)\<close>: \<^verbatim>\<open>struct.error\<close> when a value does not
  fit 32 bits or the buffer does not hold 8 bytes at \<open>pos\<close>; the buffer keeps its length.
\<close>

definition pack_into_II :: "bytes \<Rightarrow> nat \<Rightarrow> nat \<Rightarrow> nat \<Rightarrow> error + bytes" where
  "pack_into_II buf pos a b =
     (if a < 2 ^ 32 \<and> b < 2 ^ 32 \<and> pos + 8 \<le> length buf
      then Inr (take pos buf @ le_bytes 4 a @ le_bytes 4 b @ drop (pos + 8) buf)
      else Inl StructError)"

definition bind_err :: "error + 'a \<Rightarrow> ('a \<Rightarrow> error + 'b) \<Rightarrow> error + 'b" where
  "bind_err m k = (case m of Inl e \<Rightarrow> Inl e | Inr x \<Rightarrow> k x)"

section \<open>Python's UTF-8 codec\<close>

text \<open>
  A Python \<^verbatim>\<open>str\<close> is a sequence of code points (at most \<open>0x10FFFF\<close>), here a list of
  naturals. \<^verbatim>\<open>str.encode("utf-8")\<close> raises \<^verbatim>\<open>UnicodeEncodeError\<close> on a surrogate
  (\<open>0xD800\<close> to \<open>0xDFFF\<close>); a number above \<open>0x10FFFF\<close> is no code point of a
  \<^verbatim>\<open>str\<close>, and the model rejects it the same way.
\<close>

type_synonym str = "nat list"

definition encode_cp :: "nat \<Rightarrow> bytes option" where
  "encode_cp c =
     (if c < 0x80 then Some [of_nat c]
      else if c < 0x800 then Some [of_nat (0xC0 + c div 64), of_nat (0x80 + c mod 64)]
      else if c < 0x10000 then
        (if 0xD800 \<le> c \<and> c \<le> 0xDFFF then None
         else Some [of_nat (0xE0 + c div 4096), of_nat (0x80 + c div 64 mod 64),
                    of_nat (0x80 + c mod 64)])
      else if c < 0x110000 then
        Some [of_nat (0xF0 + c div 262144), of_nat (0x80 + c div 4096 mod 64),
              of_nat (0x80 + c div 64 mod 64), of_nat (0x80 + c mod 64)]
      else None)"

fun encode_utf8 :: "str \<Rightarrow> error + bytes" where
  "encode_utf8 [] = Inr []"
| "encode_utf8 (c # cs) =
     (case encode_cp c of
        None \<Rightarrow> Inl UnicodeEncodeError
      | Some bs \<Rightarrow> (case encode_utf8 cs of Inl e \<Rightarrow> Inl e | Inr rest \<Rightarrow> Inr (bs @ rest)))"

text \<open>
  \<^verbatim>\<open>bytes.decode("utf-8", errors="ignore")\<close>, as CPython's decoder does it: an invalid
  start byte is dropped alone; a sequence broken by a byte that cannot continue it is
  dropped up to that byte, where decoding resumes; a sequence cut by the end of the data
  is dropped whole. Overlong forms, surrogates and values above \<open>0x10FFFF\<close> are
  refused at the second byte.
\<close>

definition is_cont :: "byte \<Rightarrow> bool" where
  "is_cont b = (0x80 \<le> unat b \<and> unat b < 0xC0)"

definition second_ok3 :: "byte \<Rightarrow> byte \<Rightarrow> bool" where
  "second_ok3 b0 b1 =
     (is_cont b1 \<and> \<not> (if unat b1 < 0xA0 then unat b0 = 0xE0 else unat b0 = 0xED))"

definition second_ok4 :: "byte \<Rightarrow> byte \<Rightarrow> bool" where
  "second_ok4 b0 b1 =
     (is_cont b1 \<and> \<not> (if unat b1 < 0x90 then unat b0 = 0xF0 else unat b0 = 0xF4))"

fun decode_utf8_ignore :: "bytes \<Rightarrow> str" where
  "decode_utf8_ignore [] = []"
| "decode_utf8_ignore (b0 # bs) =
     (if unat b0 < 0x80 then unat b0 # decode_utf8_ignore bs
      else if unat b0 < 0xC2 then decode_utf8_ignore bs
      else if unat b0 < 0xE0 then
        (case bs of
           [] \<Rightarrow> []
         | b1 # bs1 \<Rightarrow>
             if is_cont b1
             then ((unat b0 - 0xC0) * 64 + (unat b1 - 0x80)) # decode_utf8_ignore bs1
             else decode_utf8_ignore bs)
      else if unat b0 < 0xF0 then
        (case bs of
           [] \<Rightarrow> []
         | b1 # bs1 \<Rightarrow>
             if \<not> second_ok3 b0 b1 then decode_utf8_ignore bs
             else (case bs1 of
                     [] \<Rightarrow> []
                   | b2 # bs2 \<Rightarrow>
                       if is_cont b2
                       then ((unat b0 - 0xE0) * 4096 + (unat b1 - 0x80) * 64 + (unat b2 - 0x80))
                            # decode_utf8_ignore bs2
                       else decode_utf8_ignore bs1))
      else if unat b0 < 0xF5 then
        (case bs of
           [] \<Rightarrow> []
         | b1 # bs1 \<Rightarrow>
             if \<not> second_ok4 b0 b1 then decode_utf8_ignore bs
             else (case bs1 of
                     [] \<Rightarrow> []
                   | b2 # bs2 \<Rightarrow>
                       if \<not> is_cont b2 then decode_utf8_ignore bs1
                       else (case bs2 of
                               [] \<Rightarrow> []
                             | b3 # bs3 \<Rightarrow>
                                 if is_cont b3
                                 then ((unat b0 - 0xF0) * 262144 + (unat b1 - 0x80) * 4096
                                       + (unat b2 - 0x80) * 64 + (unat b3 - 0x80))
                                      # decode_utf8_ignore bs3
                                 else decode_utf8_ignore bs2)))
      else decode_utf8_ignore bs)"

text \<open>\<^verbatim>\<open>s.rstrip(b"\x00")\<close> on bytes, and \<^verbatim>\<open>t.rstrip("\x00")\<close> on text.\<close>

definition rstrip :: "'a list \<Rightarrow> 'a \<Rightarrow> 'a list" where
  "rstrip s c = rev (dropWhile (\<lambda>x. x = c) (rev s))"

section \<open>MetadataFile\<close>

record string_literal =
  length_lit :: nat
  offset_lit :: nat

record metadata_file =
  version :: int
  string_literal_offset :: nat
  string_literal_count :: nat
  data_info_position :: nat
  string_literal_data_offset :: nat
  string_literal_data_count :: nat
  string_literals :: "string_literal list"
  str_bytes :: "bytes list"
  file_data :: bytes

definition MAGIC :: nat where
  "MAGIC = 0xFAB11BAF"

subsection \<open>parse\<close>

text \<open>
  The loop \<^verbatim>\<open>for i in range(self.string_literal_count)\<close>: \<open>i\<close> is the index and the
  last argument the number of iterations left. The payload is a slice of the buffer, so
  a span that leaves the buffer is cut at its end and raises nothing.
\<close>

fun parse_literals ::
  "bytes \<Rightarrow> nat \<Rightarrow> nat \<Rightarrow> nat \<Rightarrow> nat \<Rightarrow> error + (string_literal list \<times> bytes list)" where
  "parse_literals f slo sldo i 0 = Inr ([], [])"
| "parse_literals f slo sldo i (Suc n) =
     (case unpack_from_II f (slo + i * 8) of
        Inl e \<Rightarrow> Inl e
      | Inr (len, off) \<Rightarrow>
          (case parse_literals f slo sldo (Suc i) n of
             Inl e \<Rightarrow> Inl e
           | Inr (lits, sbs) \<Rightarrow>
               Inr (\<lparr>length_lit = len, offset_lit = off\<rparr> # lits,
                    slice f (sldo + off) (sldo + off + len) # sbs)))"

text \<open>The fixed header: the six reads of \<^verbatim>\<open>parse\<close> before its loop, in their order.\<close>

record header =
  h_version :: int
  h_string_literal_offset :: nat
  h_string_literal_table_size :: nat
  h_string_literal_data_offset :: nat
  h_string_literal_data_count :: nat

definition parse_header :: "bytes \<Rightarrow> error + header" where
  "parse_header f =
     bind_err (unpack_from_I f 0) (\<lambda>magic.
       if magic \<noteq> MAGIC then Inl InvalidMetadataFile
       else
         bind_err (unpack_from_i f 4) (\<lambda>v.
         bind_err (unpack_from_I f 8) (\<lambda>slo.
         bind_err (unpack_from_I f 12) (\<lambda>string_literal_table_size.
         bind_err (unpack_from_I f 16) (\<lambda>sldo.
         bind_err (unpack_from_I f 20) (\<lambda>sldc.
           Inr \<lparr>h_version = v, h_string_literal_offset = slo,
                h_string_literal_table_size = string_literal_table_size,
                h_string_literal_data_offset = sldo,
                h_string_literal_data_count = sldc\<rparr>))))))"

text \<open>
  \<^verbatim>\<open>MetadataFile.__init__\<close> followed by \<^verbatim>\<open>parse\<close>, on the bytes read from the file.
\<close>

definition parse :: "bytes \<Rightarrow> error + metadata_file" where
  "parse f =
     bind_err (parse_header f) (\<lambda>h.
       let cnt = h_string_literal_table_size h div 8 in
       bind_err (parse_literals f (h_string_literal_offset h) (h_string_literal_data_offset h) 0 cnt)
         (\<lambda>(lits, sbs).
            Inr \<lparr>version = h_version h,
                 string_literal_offset = h_string_literal_offset h,
                 string_literal_count = cnt,
                 data_info_position = 16,
                 string_literal_data_offset = h_string_literal_data_offset h,
                 string_literal_data_count = h_string_literal_data_count h,
                 string_literals = lits,
                 str_bytes = sbs,
                 file_data = f\<rparr>))"

subsection \<open>get_strings and set_string\<close>

definition decode_text :: "bytes \<Rightarrow> str" where
  "decode_text s = decode_utf8_ignore (rstrip s 0)"

definition get_strings :: "metadata_file \<Rightarrow> str list" where
  "get_strings d = map decode_text (str_bytes d)"

text \<open>
  \<^verbatim>\<open>self.str_bytes[index] = new_value.encode("utf-8") + b"\x00"\<close>: the right-hand side
  is evaluated first; a Python list takes the indices \<open>-n\<close> to \<open>n - 1\<close>, the negative
  ones counting from the end, and raises \<^verbatim>\<open>IndexError\<close> outside.
\<close>

definition set_string :: "metadata_file \<Rightarrow> int \<Rightarrow> str \<Rightarrow> error + metadata_file" where
  "set_string d index new_value =
     (case encode_utf8 new_value of
        Inl e \<Rightarrow> Inl e
      | Inr enc \<Rightarrow>
          (let n = int (length (str_bytes d)) in
           if index < - n \<or> n \<le> index then Inl IndexError
           else Inr (d\<lparr>str_bytes :=
                  (str_bytes d)[nat (if index < 0 then index + n else index) := enc @ [0]]\<rparr>)))"

subsection \<open>save\<close>

text \<open>
  The first loop of \<^verbatim>\<open>save\<close>, over \<^verbatim>\<open>enumerate(self.string_literals)\<close>: it returns
  the literals with their new fields, the buffer and \<^verbatim>\<open>offset_count\<close>.
\<close>

fun write_literals ::
  "bytes list \<Rightarrow> nat \<Rightarrow> string_literal list \<Rightarrow> bytes \<Rightarrow> nat \<Rightarrow> nat
   \<Rightarrow> error + (string_literal list \<times> bytes \<times> nat)" where
  "write_literals sb i [] fd pos offset_count = Inr ([], fd, offset_count)"
| "write_literals sb i (lit # lits) fd pos offset_count =
     (if i < length sb then
        (let lit' = lit\<lparr>offset_lit := offset_count, length_lit := length (sb ! i)\<rparr> in
         case pack_into_II fd pos (length_lit lit') (offset_lit lit') of
           Inl e \<Rightarrow> Inl e
         | Inr fd' \<Rightarrow>
             (case write_literals sb (Suc i) lits fd' (pos + 8) (offset_count + length_lit lit') of
                Inl e \<Rightarrow> Inl e
              | Inr (lits', fd'', oc) \<Rightarrow> Inr (lit' # lits', fd'', oc)))
      else Inl IndexError)"

text \<open>The second loop: \<^verbatim>\<open>for data in self.str_bytes\<close>.\<close>

fun write_payloads :: "bytes \<Rightarrow> nat \<Rightarrow> bytes list \<Rightarrow> bytes" where
  "write_payloads fd new_pos [] = fd"
| "write_payloads fd new_pos (data # rest) =
     write_payloads (slice_assign fd new_pos (new_pos + length data) data)
       (new_pos + length data) rest"

text \<open>The padding step between the loops: the buffer and \<^verbatim>\<open>offset_count\<close> after it.\<close>

definition write_padding :: "bytes \<Rightarrow> nat \<Rightarrow> nat \<Rightarrow> bytes \<times> nat" where
  "write_padding fd sldo offset_count =
     (let padding_needed = (4 - (sldo + offset_count) mod 4) mod 4 in
      if padding_needed \<noteq> 0 then
        (let end_pos = sldo + offset_count;
             fd' = (if end_pos + padding_needed > length fd
                    then fd @ replicate (end_pos + padding_needed - length fd) 0
                    else fd)
         in (slice_assign fd' end_pos (end_pos + padding_needed) (replicate padding_needed 0),
             offset_count + padding_needed))
      else (fd, offset_count))"

text \<open>
  \<^verbatim>\<open>save\<close> returns the object as it has become and the bytes of
  \<^verbatim>\<open>BytesIO(self.file_data)\<close>.
\<close>

definition save :: "metadata_file \<Rightarrow> error + (metadata_file \<times> bytes)" where
  "save d =
     (case write_literals (str_bytes d) 0 (string_literals d) (file_data d)
             (string_literal_offset d) 0 of
        Inl e \<Rightarrow> Inl e
      | Inr (lits, fd1, oc) \<Rightarrow>
          (case write_padding fd1 (string_literal_data_offset d) oc of
             (fd2, offset_count) \<Rightarrow>
               (let fd3 = write_payloads fd2 (string_literal_data_offset d) (str_bytes d) in
                case pack_into_II fd3 (data_info_position d)
                       (string_literal_data_offset d) offset_count of
                  Inl e \<Rightarrow> Inl e
                | Inr fd4 \<Rightarrow> Inr (d\<lparr>string_literals := lits, file_data := fd4\<rparr>, fd4))))"

subsection \<open>The listing route\<close>

text \<open>
  \<^verbatim>\<open>xs[start:end]\<close> on a list, with Python's rule for negative bounds (they count from
  the end) and its clamping.
\<close>

definition py_bound :: "nat \<Rightarrow> int \<Rightarrow> nat" where
  "py_bound n i = (if i < 0 then nat (max (i + int n) 0) else min (nat i) n)"

definition py_slice :: "'a list \<Rightarrow> int \<Rightarrow> int \<Rightarrow> 'a list" where
  "py_slice xs start stop =
     slice xs (py_bound (length xs) start) (py_bound (length xs) stop)"

record page_json =
  strings :: "str list"
  start_index :: int
  has_more :: bool

datatype response = NotFound | ServerError error | Json page_json

text \<open>
  \<^verbatim>\<open>get_strings_page\<close> of \<^verbatim>\<open>app.py\<close>: the upload folder is a map from file names to
  contents, \<open>page\<close> and \<open>limit\<close> are the integers read from the request. An exception
  of \<^verbatim>\<open>MetadataFile(filepath)\<close> is not caught there and ends the request.
\<close>

definition get_strings_page :: "(string \<rightharpoonup> bytes) \<Rightarrow> string \<Rightarrow> int \<Rightarrow> int \<Rightarrow> response" where
  "get_strings_page uploads filename page limit =
     (case uploads filename of
        None \<Rightarrow> NotFound
      | Some contents \<Rightarrow>
          (case parse contents of
             Inl e \<Rightarrow> ServerError e
           | Inr meta_obj \<Rightarrow>
               (let all_strings = get_strings meta_obj;
                    start = (page - 1) * limit;
                    stop = min (start + limit) (int (length all_strings));
                    batch = py_slice all_strings start stop
                in Json \<lparr>strings = batch, start_index = start,
                         has_more = (stop < int (length all_strings))\<rparr>)))"

section \<open>Definitions used by the statements\<close>

text \<open>
  A sequence of \<^verbatim>\<open>set_string\<close> calls on one object. A call that raises has changed
  nothing (the assignment is its only statement), so the next call meets the same object.
\<close>

fun set_strings :: "metadata_file \<Rightarrow> (int \<times> str) list \<Rightarrow> metadata_file" where
  "set_strings d [] = d"
| "set_strings d ((index, new_value) # calls) =
     (case set_string d index new_value of
        Inl e \<Rightarrow> set_strings d calls
      | Inr d' \<Rightarrow> set_strings d' calls)"

text \<open>The descriptor stored at a position of a buffer, and the payload it describes.\<close>

definition lit_at :: "bytes \<Rightarrow> nat \<Rightarrow> string_literal" where
  "lit_at f pos = \<lparr>length_lit = le_nat (take 4 (drop pos f)),
                    offset_lit = le_nat (take 4 (drop (pos + 4) f))\<rparr>"

definition payload_at :: "bytes \<Rightarrow> nat \<Rightarrow> string_literal \<Rightarrow> bytes" where
  "payload_at f sldo l = slice f (sldo + offset_lit l) (sldo + offset_lit l + length_lit l)"

text \<open>
  The specification's \<open>decode_text\<close>, in its words: decode lossily, then strip the
  trailing NUL characters of the decoded text.
\<close>

definition decode_text_spec :: "bytes \<Rightarrow> str" where
  "decode_text_spec p = rstrip (decode_utf8_ignore p) 0"

text \<open>
  The specification's page, in its words: the strings at the indices from
  \<open>(p - 1) * s\<close> up to, not including, \<open>min (p * s) n\<close>, the starting index, and
  whether that bound is below \<open>n\<close>.
\<close>

definition page_spec :: "str list \<Rightarrow> int \<Rightarrow> int \<Rightarrow> page_json" where
  "page_spec all_strings p s =
     (let n = int (length all_strings); a = (p - 1) * s; b = min (p * s) n
      in \<lparr>strings = map (\<lambda>i. all_strings ! i) [nat a..<nat b],
          start_index = a, has_more = (b < n)\<rparr>)"

subsection \<open>What save writes\<close>

text \<open>
  \<open>overwrite buf pos bs\<close> is the slice assignment \<^verbatim>\<open>buf[pos:pos+len(bs)] = bs\<close>.
  \<open>repack oc ps\<close> are the descriptors of the payloads \<open>ps\<close> laid end to end from
  offset \<open>oc\<close>; \<open>table_bytes\<close> is a descriptor table as bytes. \<open>packed_size\<close> is the
  sum of the payload lengths, \<open>padding_needed\<close> the expression of \<^verbatim>\<open>save\<close> for the
  padding, and \<open>save_bytes\<close> the four writes of \<^verbatim>\<open>save\<close> in their order: table,
  padding, payloads, header pair.
\<close>

definition overwrite :: "bytes \<Rightarrow> nat \<Rightarrow> bytes \<Rightarrow> bytes" where
  "overwrite buf pos bs = slice_assign buf pos (pos + length bs) bs"

fun repack :: "nat \<Rightarrow> bytes list \<Rightarrow> string_literal list" where
  "repack oc [] = []"
| "repack oc (p # ps) = \<lparr>length_lit = length p, offset_lit = oc\<rparr> # repack (oc + length p) ps"

definition lit_bytes :: "string_literal \<Rightarrow> bytes" where
  "lit_bytes l = le_bytes 4 (length_lit l) @ le_bytes 4 (offset_lit l)"

definition table_bytes :: "string_literal list \<Rightarrow> bytes" where
  "table_bytes lits = concat (map lit_bytes lits)"

definition packed_size :: "metadata_file \<Rightarrow> nat" where
  "packed_size d = sum_list (map length (str_bytes d))"

definition padding_needed :: "nat \<Rightarrow> nat \<Rightarrow> nat" where
  "padding_needed sldo oc = (4 - (sldo + oc) mod 4) mod 4"

definition save_bytes :: "metadata_file \<Rightarrow> bytes" where
  "save_bytes d =
     (let sldo = string_literal_data_offset d;
          fd1 = overwrite (file_data d) (string_literal_offset d)
                  (table_bytes (repack 0 (str_bytes d)));
          fd2 = fst (write_padding fd1 sldo (packed_size d));
          fd3 = write_payloads fd2 sldo (str_bytes d)
      in overwrite fd3 16
           (le_bytes 4 sldo @ le_bytes 4 (packed_size d + padding_needed sldo (packed_size d))))"

text \<open>
  The same four writes on any buffer: \<open>save_bytes d\<close> is \<open>rewrite\<close> of the buffer,
  the two offsets and the payloads of \<open>d\<close>.
\<close>

definition rewrite :: "bytes \<Rightarrow> nat \<Rightarrow> nat \<Rightarrow> bytes list \<Rightarrow> bytes" where
  "rewrite buf slo sldo sb =
     (let oc = sum_list (map length sb);
          fd1 = overwrite buf slo (table_bytes (repack 0 sb));
          fd2 = fst (write_padding fd1 sldo oc);
          fd3 = write_payloads fd2 sldo sb
      in overwrite fd3 16 (le_bytes 4 sldo @ le_bytes 4 (oc + padding_needed sldo oc)))"

text \<open>
  What holds of an object that \<^verbatim>\<open>parse\<close> returned, and still holds after
  \<^verbatim>\<open>set_string\<close>.
\<close>

definition doc_inv :: "metadata_file \<Rightarrow> bool" where
  "doc_inv d \<longleftrightarrow>
     length (string_literals d) = length (str_bytes d) \<and>
     24 \<le> length (file_data d) \<and>
     data_info_position d = 16 \<and>
     (string_literals d = [] \<or>
      string_literal_offset d + 8 * length (string_literals d) \<le> length (file_data d)) \<and>
     string_literal_data_offset d < 2 ^ 32"

text \<open>
  The object that \<^verbatim>\<open>parse\<close> returns on the bytes of \<^verbatim>\<open>save\<close>, for a file whose
  regions lie apart; \<open>v\<close> is the version.
\<close>

definition reloaded :: "metadata_file \<Rightarrow> int \<Rightarrow> metadata_file" where
  "reloaded d v =
     \<lparr>version = v, string_literal_offset = string_literal_offset d,
      string_literal_count = length (str_bytes d), data_info_position = 16,
      string_literal_data_offset = string_literal_data_offset d,
      string_literal_data_count =
        packed_size d + padding_needed (string_literal_data_offset d) (packed_size d),
      string_literals = repack 0 (str_bytes d), str_bytes = str_bytes d,
      file_data = save_bytes d\<rparr>"

subsection \<open>Example files\<close>

text \<open>
  \<open>ex_short\<close>: the magic and a version, nothing else. \<open>ex_cut\<close>: one descriptor
  of length 4 at offset 0 of a string-data region that starts at byte 32, in a file of
  34 bytes. \<open>ex_two\<close>: two strings, \<^verbatim>\<open>a\<close> and \<^verbatim>\<open>b\<close>, each with its NUL.
\<close>

definition ex_short :: bytes where
  "ex_short = [0xAF,0x1B,0xB1,0xFA, 1,0,0,0]"

definition ex_cut :: bytes where
  "ex_cut = [0xAF,0x1B,0xB1,0xFA, 1,0,0,0, 24,0,0,0, 8,0,0,0, 32,0,0,0, 4,0,0,0,
             4,0,0,0, 0,0,0,0,  0x61,0x62]"

definition doc_cut :: metadata_file where
  "doc_cut = \<lparr>version = 1, string_literal_offset = 24, string_literal_count = 1,
     data_info_position = 16, string_literal_data_offset = 32, string_literal_data_count = 4,
     string_literals = [\<lparr>length_lit = 4, offset_lit = 0\<rparr>],
     str_bytes = [[0x61, 0x62]], file_data = ex_cut\<rparr>"

definition ex_two :: bytes where
  "ex_two = [0xAF,0x1B,0xB1,0xFA, 1,0,0,0, 24,0,0,0, 16,0,0,0, 40,0,0,0, 4,0,0,0,
             2,0,0,0, 0,0,0,0,  2,0,0,0, 2,0,0,0,  0x61,0, 0x62,0]"

definition doc_two :: metadata_file where
  "doc_two = \<lparr>version = 1, string_literal_offset = 24, string_literal_count = 2,
     data_info_position = 16, string_literal_data_offset = 40, string_literal_data_count = 4,
     string_literals = [\<lparr>length_lit = 2, offset_lit = 0\<rparr>, \<lparr>length_lit = 2, offset_lit = 2\<rparr>],
     str_bytes = [[0x61, 0], [0x62, 0]], file_data = ex_two\<rparr>"

text \<open>
  \<open>ex_abc\<close>: one string, \<^verbatim>\<open>abc\<close> and three NUL bytes. \<open>ex_long\<close>: one string,
  \<^verbatim>\<open>abcdefg\<close> and its NUL.
\<close>

definition ex_abc :: bytes where
  "ex_abc = [0xAF,0x1B,0xB1,0xFA, 1,0,0,0, 24,0,0,0, 8,0,0,0, 32,0,0,0, 6,0,0,0,
             6,0,0,0, 0,0,0,0,  0x61,0x62,0x63,0,0,0]"

definition doc_abc :: metadata_file where
  "doc_abc = \<lparr>version = 1, string_literal_offset = 24, string_literal_count = 1,
     data_info_position = 16, string_literal_data_offset = 32, string_literal_data_count = 6,
     string_literals = [\<lparr>length_lit = 6, offset_lit = 0\<rparr>],
     str_bytes = [[0x61, 0x62, 0x63, 0, 0, 0]], file_data = ex_abc\<rparr>"

definition ex_long :: bytes where
  "ex_long = [0xAF,0x1B,0xB1,0xFA, 1,0,0,0, 24,0,0,0, 8,0,0,0, 32,0,0,0, 8,0,0,0,
              8,0,0,0, 0,0,0,0,  0x61,0x62,0x63,0x64,0x65,0x66,0x67,0]"

definition doc_long :: metadata_file where
  "doc_long = \<lparr>version = 1, string_literal_offset = 24, string_literal_count = 1,
     data_info_position = 16, string_literal_data_offset = 32, string_literal_data_count = 8,
     string_literals = [\<lparr>length_lit = 8, offset_lit = 0\<rparr>],
     str_bytes = [[0x61,0x62,0x63,0x64,0x65,0x66,0x67,0]], file_data = ex_long\<rparr>"

text \<open>
  \<open>ex_alias\<close>: the string data (\<^verbatim>\<open>abc\<close> and a NUL, at byte 24) lies before the
  descriptor table (at byte 28), and both descriptors name the same four bytes;
  \<open>out_alias\<close> are the bytes \<^verbatim>\<open>save\<close> returns for it. \<open>ex_share\<close>: the same layout
  with the strings \<^verbatim>\<open>hi\<close> and \<^verbatim>\<open>i\<close> sharing their end; \<open>out_share\<close> are the
  bytes of \<^verbatim>\<open>save\<close>, \<open>doc_share2\<close> the object read back from them and
  \<open>out_share2\<close> the bytes of \<^verbatim>\<open>save\<close> on that.
\<close>

definition ex_alias :: bytes where
  "ex_alias = [0xAF,0x1B,0xB1,0xFA, 1,0,0,0, 28,0,0,0, 16,0,0,0, 24,0,0,0, 4,0,0,0,
               0x61,0x62,0x63,0,  4,0,0,0, 0,0,0,0,  4,0,0,0, 0,0,0,0]"

definition doc_alias :: metadata_file where
  "doc_alias = \<lparr>version = 1, string_literal_offset = 28, string_literal_count = 2,
     data_info_position = 16, string_literal_data_offset = 24, string_literal_data_count = 4,
     string_literals = [\<lparr>length_lit = 4, offset_lit = 0\<rparr>, \<lparr>length_lit = 4, offset_lit = 0\<rparr>],
     str_bytes = [[0x61, 0x62, 0x63, 0], [0x61, 0x62, 0x63, 0]], file_data = ex_alias\<rparr>"

definition out_alias :: bytes where
  "out_alias = [0xAF,0x1B,0xB1,0xFA, 1,0,0,0, 28,0,0,0, 16,0,0,0, 24,0,0,0, 8,0,0,0,
                0x61,0x62,0x63,0,  0x61,0x62,0x63,0, 0,0,0,0,  4,0,0,0, 4,0,0,0]"

definition ex_share :: bytes where
  "ex_share = [0xAF,0x1B,0xB1,0xFA, 1,0,0,0, 28,0,0,0, 16,0,0,0, 24,0,0,0, 4,0,0,0,
               0x68,0x69,0,0,  3,0,0,0, 0,0,0,0,  2,0,0,0, 1,0,0,0]"

definition doc_share :: metadata_file where
  "doc_share = \<lparr>version = 1, string_literal_offset = 28, string_literal_count = 2,
     data_info_position = 16, string_literal_data_offset = 24, string_literal_data_count = 4,
     string_literals = [\<lparr>length_lit = 3, offset_lit = 0\<rparr>, \<lparr>length_lit = 2, offset_lit = 1\<rparr>],
     str_bytes = [[0x68, 0x69, 0], [0x69, 0]], file_data = ex_share\<rparr>"

definition out_share :: bytes where
  "out_share = [0xAF,0x1B,0xB1,0xFA, 1,0,0,0, 28,0,0,0, 16,0,0,0, 24,0,0,0, 8,0,0,0,
                0x68,0x69,0,0x69,  0,0,0,0, 0,0,0,0,  2,0,0,0, 3,0,0,0]"

definition doc_share2 :: metadata_file where
  "doc_share2 = \<lparr>version = 1, string_literal_offset = 28, string_literal_count = 2,
     data_info_position = 16, string_literal_data_offset = 24, string_literal_data_count = 8,
     string_literals = [\<lparr>length_lit = 0, offset_lit = 0\<rparr>, \<lparr>length_lit = 2, offset_lit = 3\<rparr>],
     str_bytes = [[], [0x69, 0]], file_data = out_share\<rparr>"

definition out_share2 :: bytes where
  "out_share2 = [0xAF,0x1B,0xB1,0xFA, 1,0,0,0, 28,0,0,0, 16,0,0,0, 24,0,0,0, 4,0,0,0,
                 0x69,0,0,0,  0,0,0,0, 0,0,0,0,  2,0,0,0, 0,0,0,0]"

text \<open>
  \<open>ex_beyond\<close>: a file of 32 bytes whose string data is said to start at byte 36;
  \<open>out_beyond\<close> and \<open>doc_beyond_saved\<close> are what \<^verbatim>\<open>save\<close> returns and leaves
  after the one string has been set to \<^verbatim>\<open>abc\<close>.
\<close>

definition ex_beyond :: bytes where
  "ex_beyond = [0xAF,0x1B,0xB1,0xFA, 1,0,0,0, 24,0,0,0, 8,0,0,0, 36,0,0,0, 0,0,0,0,
                0,0,0,0, 0,0,0,0]"

definition doc_beyond :: metadata_file where
  "doc_beyond = \<lparr>version = 1, string_literal_offset = 24, string_literal_count = 1,
     data_info_position = 16, string_literal_data_offset = 36, string_literal_data_count = 0,
     string_literals = [\<lparr>length_lit = 0, offset_lit = 0\<rparr>],
     str_bytes = [[]], file_data = ex_beyond\<rparr>"

definition out_beyond :: bytes where
  "out_beyond = [0xAF,0x1B,0xB1,0xFA, 1,0,0,0, 24,0,0,0, 8,0,0,0, 36,0,0,0, 4,0,0,0,
                 4,0,0,0, 0,0,0,0, 0x61,0x62,0x63,0]"

definition doc_beyond_saved :: metadata_file where
  "doc_beyond_saved = \<lparr>version = 1, string_literal_offset = 24, string_literal_count = 1,
     data_info_position = 16, string_literal_data_offset = 36, string_literal_data_count = 0,
     string_literals = [\<lparr>length_lit = 4, offset_lit = 0\<rparr>],
     str_bytes = [[0x61, 0x62, 0x63, 0]], file_data = out_beyond\<rparr>"

section \<open>Little-endian numbers\<close>

lemma length_le_bytes [simp]: "length (le_bytes k n) = k"
  by (induction k arbitrary: n) auto

lemma le_nat_le_bytes: "le_nat (le_bytes k n) = n mod 256 ^ k"
proof (induction k arbitrary: n)
  case 0
  then show ?case by simp
next
  case (Suc k)
  have "unat (of_nat (n mod 256) :: byte) = n mod 256"
    by (simp add: unat_of_nat)
  then have "le_nat (le_bytes (Suc k) n) = n mod 256 + 256 * (n div 256 mod 256 ^ k)"
    by (simp add: Suc.IH)
  also have "\<dots> = n mod 256 ^ Suc k"
    by (simp add: mod_mult2_eq)
  finally show ?case .
qed

lemma le_nat_le_bytes4: "n < 2 ^ 32 \<Longrightarrow> le_nat (le_bytes 4 n) = n"
  by (simp add: le_nat_le_bytes)

lemma le_nat_bound: "le_nat bs < 256 ^ length bs"
proof (induction bs)
  case Nil
  then show ?case by simp
next
  case (Cons b bs)
  have "unat b < 256" using unsigned_less [of b, where ?'a = nat] by simp
  with Cons show ?case by simp
qed

lemma le_bytes_numeral:
  "le_bytes (numeral k) n = le_bytes (Suc (pred_numeral k)) n"
  by (simp only: numeral_eq_Suc)

section \<open>What parse returns\<close>

lemma parse_literals_numeral:
  "parse_literals f slo sldo i (numeral k) = parse_literals f slo sldo i (Suc (pred_numeral k))"
  by (simp only: numeral_eq_Suc)

lemmas parse_simps = parse_literals_numeral parse_def parse_header_def bind_err_def
  unpack_from_I_def unpack_from_i_def unpack_from_II_def MAGIC_def slice_def

lemma parse_literals_eq:
  "n = 0 \<or> slo + (i + n) * 8 \<le> length f \<Longrightarrow>
   parse_literals f slo sldo i n =
     Inr (map (\<lambda>k. lit_at f (slo + k * 8)) [i..<i + n],
          map (\<lambda>k. payload_at f sldo (lit_at f (slo + k * 8))) [i..<i + n])"
proof (induction n arbitrary: i)
  case 0
  then show ?case by simp
next
  case (Suc n)
  then have b: "slo + (i + Suc n) * 8 \<le> length f" by simp
  then have u: "unpack_from_II f (slo + i * 8) =
      Inr (length_lit (lit_at f (slo + i * 8)), offset_lit (lit_at f (slo + i * 8)))"
    by (simp add: unpack_from_II_def lit_at_def add.assoc)
  from b have "n = 0 \<or> slo + (Suc i + n) * 8 \<le> length f" by simp
  from Suc.IH [OF this] have ih: "parse_literals f slo sldo (Suc i) n =
     Inr (map (\<lambda>k. lit_at f (slo + k * 8)) [Suc i..<Suc i + n],
          map (\<lambda>k. payload_at f sldo (lit_at f (slo + k * 8))) [Suc i..<Suc i + n])" .
  have e: "[i..<i + Suc n] = i # [Suc i..<Suc i + n]"
    by (simp add: upt_conv_Cons del: upt_Suc)
  show ?case unfolding e
    by (simp add: ih u payload_at_def del: upt_Suc)
qed

lemma parse_literals_fail:
  "n \<noteq> 0 \<Longrightarrow> length f < slo + (i + n) * 8 \<Longrightarrow> parse_literals f slo sldo i n = Inl StructError"
proof (induction n arbitrary: i)
  case 0
  then show ?case by simp
next
  case (Suc n)
  show ?case
  proof (cases "slo + i * 8 + 8 \<le> length f")
    case False
    then show ?thesis by (simp add: unpack_from_II_def)
  next
    case True
    with Suc.prems have "n \<noteq> 0" by (cases n) auto
    moreover from Suc.prems have "length f < slo + (Suc i + n) * 8" by simp
    ultimately have "parse_literals f slo sldo (Suc i) n = Inl StructError"
      by (rule Suc.IH)
    then show ?thesis by (simp add: unpack_from_II_def True)
  qed
qed

lemma parse_header_Inr:
  "parse_header f = Inr h \<Longrightarrow>
     24 \<le> length f \<and> le_nat (take 4 f) = MAGIC \<and>
     h_string_literal_offset h = le_nat (take 4 (drop 8 f)) \<and>
     h_string_literal_table_size h = le_nat (take 4 (drop 12 f)) \<and>
     h_string_literal_data_offset h = le_nat (take 4 (drop 16 f)) \<and>
     h_string_literal_data_count h = le_nat (take 4 (drop 20 f))"
  by (auto simp: parse_header_def bind_err_def unpack_from_I_def unpack_from_i_def Let_def
           split: if_splits)

lemma parse_Inr_iff:
  "parse f = Inr d \<longleftrightarrow>
     (\<exists>h. parse_header f = Inr h \<and>
          (let cnt = h_string_literal_table_size h div 8;
               slo = h_string_literal_offset h; sldo = h_string_literal_data_offset h
           in (cnt = 0 \<or> slo + cnt * 8 \<le> length f) \<and>
              d = \<lparr>version = h_version h, string_literal_offset = slo,
                   string_literal_count = cnt, data_info_position = 16,
                   string_literal_data_offset = sldo,
                   string_literal_data_count = h_string_literal_data_count h,
                   string_literals = map (\<lambda>k. lit_at f (slo + k * 8)) [0..<cnt],
                   str_bytes = map (\<lambda>k. payload_at f sldo (lit_at f (slo + k * 8))) [0..<cnt],
                   file_data = f\<rparr>))"
proof (cases "parse_header f")
  case (Inl e)
  then show ?thesis by (simp add: parse_def bind_err_def)
next
  case (Inr h)
  let ?cnt = "h_string_literal_table_size h div 8"
  show ?thesis
  proof (cases "?cnt = 0 \<or> h_string_literal_offset h + ?cnt * 8 \<le> length f")
    case True
    then have "?cnt = 0 \<or> h_string_literal_offset h + (0 + ?cnt) * 8 \<le> length f" by simp
    from parse_literals_eq [OF this] Inr True show ?thesis
      by (auto simp: parse_def bind_err_def Let_def)
  next
    case False
    then have "parse_literals f (h_string_literal_offset h) (h_string_literal_data_offset h) 0 ?cnt
        = Inl StructError"
      using parse_literals_fail [of ?cnt f "h_string_literal_offset h" 0] by simp
    with Inr False show ?thesis
      by (auto simp: parse_def bind_err_def Let_def)
  qed
qed

lemma parse_count:
  "parse f = Inr d \<Longrightarrow> length (str_bytes d) = string_literal_count d \<and>
     length (string_literals d) = string_literal_count d"
  by (auto simp: parse_Inr_iff Let_def)

lemma parse_ex_cut: "parse ex_cut = Inr doc_cut"
  by (simp add: parse_simps ex_cut_def doc_cut_def)

lemma parse_ex_two: "parse ex_two = Inr doc_two"
  by (simp add: parse_simps ex_two_def doc_two_def)

lemma get_strings_two: "get_strings doc_two = [[0x61], [0x62]]"
  by (simp add: get_strings_def decode_text_def doc_two_def rstrip_def)

section \<open>The header is read before anything else\<close>

text \<open>
  C10. A buffer that starts with the four bytes of the magic \<open>0xFAB11BAF\<close> and is
  shorter than 24 bytes makes \<^verbatim>\<open>parse\<close> raise while it reads the fixed header: the error
  comes from \<open>parse_header\<close>, before any descriptor is read, it is \<^verbatim>\<open>struct.error\<close> and
  not the exception of a wrong magic, and no object is returned.
\<close>

theorem parse_short_header:
  assumes "take 4 f = [0xAF, 0x1B, 0xB1, 0xFA]" and "length f < 24"
  shows "parse_header f = Inl StructError \<and> parse f = Inl StructError \<and>
         parse f \<noteq> Inl InvalidMetadataFile \<and> (\<nexists>d. parse f = Inr d)"
proof -
  have l4: "4 \<le> length f"
  proof -
    have "length (take 4 f) = 4" by (simp add: assms(1))
    then show ?thesis by simp
  qed
  have m: "unpack_from_I f 0 = Inr MAGIC"
    using l4 assms(1) by (simp add: unpack_from_I_def MAGIC_def)
  have "parse_header f = Inl StructError"
    using assms(2) m
    by (auto simp: parse_header_def bind_err_def unpack_from_I_def unpack_from_i_def Let_def)
  then show ?thesis by (simp add: parse_def bind_err_def)
qed

theorem parse_short_header_witness:
  "take 4 ex_short = [0xAF, 0x1B, 0xB1, 0xFA] \<and> length ex_short = 8 \<and>
   parse_header ex_short = Inl StructError \<and> parse ex_short = Inl StructError"
proof -
  have a: "take 4 ex_short = [0xAF, 0x1B, 0xB1, 0xFA]" by (simp add: ex_short_def)
  have b: "length ex_short < 24" by (simp add: ex_short_def)
  have "length ex_short = 8" by (simp add: ex_short_def)
  with a parse_short_header [OF a b] show ?thesis by simp
qed

section \<open>A payload that leaves the buffer\<close>

text \<open>
  C3, as the specification has it, fails: \<open>ex_cut\<close> has 34 bytes and one descriptor
  whose span is the bytes 32 to 36, and \<^verbatim>\<open>parse\<close> returns an object whose payload is the
  two bytes that exist.
\<close>

theorem parse_cut_counterexample:
  "length ex_cut = 34 \<and>
   parse ex_cut = Inr \<lparr>version = 1, string_literal_offset = 24, string_literal_count = 1,
     data_info_position = 16, string_literal_data_offset = 32, string_literal_data_count = 4,
     string_literals = [\<lparr>length_lit = 4, offset_lit = 0\<rparr>],
     str_bytes = [[0x61, 0x62]], file_data = ex_cut\<rparr>"
  by (simp add: parse_simps ex_cut_def)

text \<open>
  C3, amended. No payload span makes \<^verbatim>\<open>parse\<close> fail: when the header is read and the
  descriptor table lies in the buffer, \<^verbatim>\<open>parse\<close> returns an object, and each payload is
  the part of its span that lies in the buffer (\<open>take\<close> and \<open>drop\<close> stop at the end of
  the list).
\<close>

theorem parse_cuts_payload:
  assumes "parse_header f = Inr h"
    and "h_string_literal_table_size h div 8 = 0 \<or>
         h_string_literal_offset h + h_string_literal_table_size h div 8 * 8 \<le> length f"
  shows "\<exists>d. parse f = Inr d \<and>
           length (string_literals d) = h_string_literal_table_size h div 8 \<and>
           length (str_bytes d) = h_string_literal_table_size h div 8 \<and>
           (\<forall>i < length (str_bytes d).
              str_bytes d ! i =
                take (length_lit (string_literals d ! i))
                  (drop (h_string_literal_data_offset h + offset_lit (string_literals d ! i)) f))"
  using assms by (simp add: parse_Inr_iff Let_def payload_at_def slice_def)

theorem parse_cuts_payload_witness:
  "(\<exists>h. parse_header ex_cut = Inr h) \<and>
   (\<exists>d. parse ex_cut = Inr d \<and> str_bytes d ! 0 = take 4 (drop 32 ex_cut) \<and>
        str_bytes d ! 0 = [0x61, 0x62])"
proof -
  let ?h = "\<lparr>h_version = 1, h_string_literal_offset = 24, h_string_literal_table_size = 8,
             h_string_literal_data_offset = 32, h_string_literal_data_count = 4\<rparr>"
  have h: "parse_header ex_cut = Inr ?h"
    by (simp add: parse_simps ex_cut_def)
  have b: "h_string_literal_table_size ?h div 8 = 0 \<or>
         h_string_literal_offset ?h + h_string_literal_table_size ?h div 8 * 8 \<le> length ex_cut"
    by (simp add: ex_cut_def)
  from parse_cuts_payload [OF h b] obtain d where d: "parse ex_cut = Inr d"
    and n: "length (str_bytes d) = 1"
    and p: "\<forall>i < length (str_bytes d). str_bytes d ! i =
                take (length_lit (string_literals d ! i))
                  (drop (32 + offset_lit (string_literals d ! i)) ex_cut)"
    by auto
  from d have l: "string_literals d = [\<lparr>length_lit = 4, offset_lit = 0\<rparr>]"
    using parse_ex_cut by (auto simp: doc_cut_def)
  from p n l have "str_bytes d ! 0 = take 4 (drop 32 ex_cut)" by simp
  moreover have "take 4 (drop 32 ex_cut) = [0x61, 0x62]" by (simp add: ex_cut_def)
  ultimately show ?thesis using h d by auto
qed

section \<open>set_string\<close>

lemma set_string_fixed:
  "set_string d index new_value = Inr d' \<Longrightarrow>
     string_literal_count d' = string_literal_count d \<and>
     length (str_bytes d') = length (str_bytes d) \<and>
     string_literals d' = string_literals d \<and> file_data d' = file_data d \<and>
     string_literal_offset d' = string_literal_offset d \<and>
     string_literal_data_offset d' = string_literal_data_offset d \<and>
     data_info_position d' = data_info_position d"
  by (auto simp: set_string_def Let_def split: sum.splits if_splits)

lemma set_strings_fixed:
  "string_literal_count (set_strings d calls) = string_literal_count d \<and>
   length (str_bytes (set_strings d calls)) = length (str_bytes d) \<and>
   string_literals (set_strings d calls) = string_literals d \<and>
   file_data (set_strings d calls) = file_data d \<and>
   string_literal_offset (set_strings d calls) = string_literal_offset d \<and>
   string_literal_data_offset (set_strings d calls) = string_literal_data_offset d \<and>
   data_info_position (set_strings d calls) = data_info_position d"
proof (induction calls arbitrary: d)
  case Nil
  then show ?case by simp
next
  case (Cons c calls)
  obtain index new_value where c: "c = (index, new_value)" by (cases c)
  show ?case
  proof (cases "set_string d index new_value")
    case (Inl e)
    with Cons.IH [of d] c show ?thesis by simp
  next
    case (Inr d')
    with Cons.IH [of d'] set_string_fixed [OF Inr] c show ?thesis by simp
  qed
qed

text \<open>
  C4, as the specification has it, fails on the integers below \<open>- descriptor_count\<close>:
  \<open>doc_two\<close> has two strings, and the index \<open>- 3\<close>, which is not at least 2, raises
  \<^verbatim>\<open>IndexError\<close>; the index \<open>- 1\<close> is accepted and replaces the last payload.
\<close>

theorem set_string_negative_counterexample:
  "string_literal_count doc_two = 2 \<and> length (str_bytes doc_two) = 2 \<and>
   \<not> (2 \<le> (- 3 :: int)) \<and> set_string doc_two (- 3) [0x78] = Inl IndexError \<and>
   set_string doc_two (- 1) [0x78] = Inr (doc_two\<lparr>str_bytes := [[0x61, 0], [0x78, 0]]\<rparr>)"
  by (simp add: set_string_def encode_cp_def doc_two_def)

text \<open>
  C4, amended. For a text that UTF-8 can encode, with \<open>n\<close> the number of payloads:
  \<^verbatim>\<open>set_string\<close> raises \<^verbatim>\<open>IndexError\<close> exactly when \<open>index < - n\<close> or \<open>n \<le> index\<close>
  and returns an object exactly when \<open>- n \<le> index < n\<close>; a negative index counts from
  the end. On success the payload addressed becomes the encoded text followed by one NUL
  byte, every other payload and every other field, the descriptors among them, is as
  before, and no sequence of further calls changes the count, the number of payloads or
  the descriptors. A call that raises returns no object: nothing is changed.
\<close>

theorem set_string_index:
  assumes "encode_utf8 new_value = Inr enc"
  shows "(set_string d index new_value = Inl IndexError \<longleftrightarrow>
            index < - int (length (str_bytes d)) \<or> int (length (str_bytes d)) \<le> index) \<and>
         ((\<exists>d'. set_string d index new_value = Inr d') \<longleftrightarrow>
            - int (length (str_bytes d)) \<le> index \<and> index < int (length (str_bytes d))) \<and>
         (\<forall>d'. set_string d index new_value = Inr d' \<longrightarrow>
            (let k = nat (if index < 0 then index + int (length (str_bytes d)) else index)
             in d' = d\<lparr>str_bytes := str_bytes d'\<rparr> \<and>
                length (str_bytes d') = length (str_bytes d) \<and>
                k < length (str_bytes d) \<and>
                str_bytes d' ! k = enc @ [0] \<and>
                (\<forall>j < length (str_bytes d). j \<noteq> k \<longrightarrow> str_bytes d' ! j = str_bytes d ! j)) \<and>
            (\<forall>calls.
               string_literal_count (set_strings d' calls) = string_literal_count d \<and>
               length (str_bytes (set_strings d' calls)) = length (str_bytes d) \<and>
               string_literals (set_strings d' calls) = string_literals d))"
proof -
  let ?n = "int (length (str_bytes d))"
  have 1: "set_string d index new_value = Inl IndexError \<longleftrightarrow> index < - ?n \<or> ?n \<le> index"
    using assms by (simp add: set_string_def Let_def)
  have 2: "(\<exists>d'. set_string d index new_value = Inr d') \<longleftrightarrow> - ?n \<le> index \<and> index < ?n"
    using assms by (auto simp: set_string_def Let_def)
  have 3: "(let k = nat (if index < 0 then index + ?n else index)
             in d' = d\<lparr>str_bytes := str_bytes d'\<rparr> \<and>
                length (str_bytes d') = length (str_bytes d) \<and>
                k < length (str_bytes d) \<and>
                str_bytes d' ! k = enc @ [0] \<and>
                (\<forall>j < length (str_bytes d). j \<noteq> k \<longrightarrow> str_bytes d' ! j = str_bytes d ! j))"
    if "set_string d index new_value = Inr d'" for d'
    using that assms by (auto simp: set_string_def Let_def split: if_splits)
  have 4: "string_literal_count (set_strings d' calls) = string_literal_count d \<and>
           length (str_bytes (set_strings d' calls)) = length (str_bytes d) \<and>
           string_literals (set_strings d' calls) = string_literals d"
    if s: "set_string d index new_value = Inr d'" for d' calls
    using set_string_fixed [OF s] set_strings_fixed [of d' calls] by simp
  from 1 2 3 4 show ?thesis by blast
qed

theorem set_string_index_witness:
  "set_string doc_two 1 [0x78] = Inr (doc_two\<lparr>str_bytes := [[0x61, 0], [0x78, 0]]\<rparr>) \<and>
   set_string doc_two (- 3) [0x78] = Inl IndexError \<and>
   set_string doc_two 2 [0x78] = Inl IndexError"
proof -
  have e: "encode_utf8 [0x78] = Inr [0x78]" by (simp add: encode_cp_def)
  have n: "length (str_bytes doc_two) = 2" by (simp add: doc_two_def)
  have a: "set_string doc_two 1 [0x78] = Inr (doc_two\<lparr>str_bytes := [[0x61, 0], [0x78, 0]]\<rparr>)"
    by (simp add: set_string_def encode_cp_def doc_two_def)
  from set_string_index [OF e, of doc_two "- 3"] set_string_index [OF e, of doc_two 2] n a
  show ?thesis by simp
qed

section \<open>decode_text\<close>

text \<open>Decoding what \<^verbatim>\<open>encode\<close> produced gives the text back.\<close>

lemma unat_byte: "n < 256 \<Longrightarrow> unat (of_nat n :: byte) = n"
  by (simp add: unat_of_nat)

lemma decode2:
  assumes "unat b0 = 0xC0 + h" and "2 \<le> h" and "h < 32" and "unat b1 = 0x80 + l" and "l < 64"
  shows "decode_utf8_ignore (b0 # b1 # rest) = (h * 64 + l) # decode_utf8_ignore rest"
  using assms by (simp add: is_cont_def)

lemma decode3:
  assumes "unat b0 = 0xE0 + h" and "h < 16" and "unat b1 = 0x80 + m" and "m < 64"
    and "unat b2 = 0x80 + l" and "l < 64"
    and "h = 0 \<longrightarrow> 32 \<le> m" and "h = 13 \<longrightarrow> m < 32"
  shows "decode_utf8_ignore (b0 # b1 # b2 # rest) = (h * 4096 + m * 64 + l) # decode_utf8_ignore rest"
proof -
  have ok: "second_ok3 b0 b1"
    using assms by (auto simp: second_ok3_def is_cont_def)
  have c2: "is_cont b2" using assms by (simp add: is_cont_def)
  show ?thesis using assms(1-6) by (simp add: ok c2)
qed

lemma decode4:
  assumes "unat b0 = 0xF0 + h" and "h < 5" and "unat b1 = 0x80 + m" and "m < 64"
    and "unat b2 = 0x80 + l" and "l < 64" and "unat b3 = 0x80 + k" and "k < 64"
    and "h = 0 \<longrightarrow> 16 \<le> m" and "h = 4 \<longrightarrow> m < 16"
  shows "decode_utf8_ignore (b0 # b1 # b2 # b3 # rest)
         = (h * 262144 + m * 4096 + l * 64 + k) # decode_utf8_ignore rest"
proof -
  have ok: "second_ok4 b0 b1"
    using assms by (auto simp: second_ok4_def is_cont_def)
  have c2: "is_cont b2" "is_cont b3" using assms by (simp_all add: is_cont_def)
  show ?thesis using assms(1-8) by (simp add: ok c2)
qed

lemma decode_encode_cp:
  assumes "encode_cp c = Some bs"
  shows "decode_utf8_ignore (bs @ rest) = c # decode_utf8_ignore rest"
proof -
  consider (1) "c < 0x80" | (2) "0x80 \<le> c" "c < 0x800"
    | (3) "0x800 \<le> c" "c < 0x10000" | (4) "0x10000 \<le> c" "c < 0x110000" | (5) "0x110000 \<le> c"
    by linarith
  then show ?thesis
  proof cases
    case 1
    with assms have "bs = [of_nat c]" by (simp add: encode_cp_def)
    then show ?thesis using 1 by (simp add: unat_byte)
  next
    case 2
    with assms have bs: "bs = [of_nat (0xC0 + c div 64), of_nat (0x80 + c mod 64)]"
      by (simp add: encode_cp_def)
    from 2 have h: "2 \<le> c div 64" "c div 64 < 32" by simp_all
    have "decode_utf8_ignore (of_nat (0xC0 + c div 64) # of_nat (0x80 + c mod 64) # rest)
        = (c div 64 * 64 + c mod 64) # decode_utf8_ignore rest"
    proof (rule decode2)
      show "unat (of_nat (0xC0 + c div 64) :: byte) = 0xC0 + c div 64"
        using h by (intro unat_byte) simp
      show "unat (of_nat (0x80 + c mod 64) :: byte) = 0x80 + c mod 64"
        by (intro unat_byte) simp
    qed (use h in simp_all)
    then show ?thesis by (simp add: bs)
  next
    case 3
    with assms have ns: "\<not> (0xD800 \<le> c \<and> c \<le> 0xDFFF)"
      and bs: "bs = [of_nat (0xE0 + c div 4096), of_nat (0x80 + c div 64 mod 64),
                     of_nat (0x80 + c mod 64)]"
      by (simp_all add: encode_cp_def split: if_splits)
    define q where "q = c div 64"
    have qq: "q div 64 = c div 4096" by (simp add: q_def div_mult2_eq [symmetric])
    from 3 have h: "c div 4096 < 16" by simp
    have lo: "c div 4096 = 0 \<longrightarrow> 32 \<le> q mod 64"
    proof
      assume "c div 4096 = 0"
      then have "q div 64 = 0" by (simp add: qq)
      moreover from 3 have "32 \<le> q" by (simp add: q_def)
      ultimately show "32 \<le> q mod 64" by simp
    qed
    have hi: "c div 4096 = 13 \<longrightarrow> q mod 64 < 32"
    proof
      assume a: "c div 4096 = 13"
      then have "c < 57344" by simp
      with ns have "c < 55296" by simp
      then have "q < 864" by (simp add: q_def)
      moreover from a have "q div 64 = 13" by (simp add: qq)
      then have "13 * 64 + q mod 64 = q" using div_mult_mod_eq [of q 64] by simp
      ultimately show "q mod 64 < 32" by linarith
    qed
    have r: "c div 4096 * 4096 + q mod 64 * 64 + c mod 64 = c"
    proof -
      have "q div 64 * 64 + q mod 64 = q" by simp
      then have "c div 4096 * 64 + q mod 64 = q" by (simp add: qq)
      moreover have "q * 64 + c mod 64 = c" by (simp add: q_def)
      ultimately show ?thesis by (simp add: algebra_simps)
    qed
    have "decode_utf8_ignore (of_nat (0xE0 + c div 4096) # of_nat (0x80 + q mod 64)
            # of_nat (0x80 + c mod 64) # rest)
        = (c div 4096 * 4096 + q mod 64 * 64 + c mod 64) # decode_utf8_ignore rest"
    proof (rule decode3)
      show "unat (of_nat (0xE0 + c div 4096) :: byte) = 0xE0 + c div 4096"
        using h by (intro unat_byte) simp
      show "unat (of_nat (0x80 + q mod 64) :: byte) = 0x80 + q mod 64"
        by (intro unat_byte) simp
      show "unat (of_nat (0x80 + c mod 64) :: byte) = 0x80 + c mod 64"
        by (intro unat_byte) simp
    qed (use h lo hi in simp_all)
    then show ?thesis by (simp add: bs r q_def [symmetric])
  next
    case 4
    with assms have bs: "bs = [of_nat (0xF0 + c div 262144), of_nat (0x80 + c div 4096 mod 64),
              of_nat (0x80 + c div 64 mod 64), of_nat (0x80 + c mod 64)]"
      by (simp add: encode_cp_def)
    define q where "q = c div 64"
    define p where "p = c div 4096"
    have qp: "q div 64 = p" by (simp add: q_def p_def div_mult2_eq [symmetric])
    have ph: "p div 64 = c div 262144" by (simp add: p_def div_mult2_eq [symmetric])
    from 4 have h: "c div 262144 < 5" by simp
    have lo: "c div 262144 = 0 \<longrightarrow> 16 \<le> p mod 64"
    proof
      assume "c div 262144 = 0"
      then have "p div 64 = 0" by (simp add: ph)
      moreover from 4 have "16 \<le> p" by (simp add: p_def)
      ultimately show "16 \<le> p mod 64" by simp
    qed
    have hi: "c div 262144 = 4 \<longrightarrow> p mod 64 < 16"
    proof
      assume a: "c div 262144 = 4"
      from 4 have "p < 272" by (simp add: p_def)
      moreover from a have "p div 64 = 4" by (simp add: ph)
      then have "4 * 64 + p mod 64 = p" using div_mult_mod_eq [of p 64] by simp
      ultimately show "p mod 64 < 16" by linarith
    qed
    have r: "c div 262144 * 262144 + p mod 64 * 4096 + q mod 64 * 64 + c mod 64 = c"
    proof -
      have "p div 64 * 64 + p mod 64 = p" by simp
      then have 1: "c div 262144 * 64 + p mod 64 = p" by (simp add: ph)
      have "q div 64 * 64 + q mod 64 = q" by simp
      then have 2: "p * 64 + q mod 64 = q" by (simp add: qp)
      have 3: "q * 64 + c mod 64 = c" by (simp add: q_def)
      from 1 2 3 show ?thesis by (simp add: algebra_simps)
    qed
    have "decode_utf8_ignore (of_nat (0xF0 + c div 262144) # of_nat (0x80 + p mod 64)
            # of_nat (0x80 + q mod 64) # of_nat (0x80 + c mod 64) # rest)
        = (c div 262144 * 262144 + p mod 64 * 4096 + q mod 64 * 64 + c mod 64)
          # decode_utf8_ignore rest"
    proof (rule decode4)
      show "unat (of_nat (0xF0 + c div 262144) :: byte) = 0xF0 + c div 262144"
        using h by (intro unat_byte) simp
      show "unat (of_nat (0x80 + p mod 64) :: byte) = 0x80 + p mod 64"
        by (intro unat_byte) simp
      show "unat (of_nat (0x80 + q mod 64) :: byte) = 0x80 + q mod 64"
        by (intro unat_byte) simp
      show "unat (of_nat (0x80 + c mod 64) :: byte) = 0x80 + c mod 64"
        by (intro unat_byte) simp
    qed (use h lo hi in simp_all)
    then show ?thesis by (simp add: bs r q_def [symmetric] p_def [symmetric])
  next
    case 5
    with assms show ?thesis by (simp add: encode_cp_def)
  qed
qed

lemma decode_encode_utf8:
  "encode_utf8 t = Inr p \<Longrightarrow> decode_utf8_ignore (p @ rest) = t @ decode_utf8_ignore rest"
proof (induction t arbitrary: p)
  case Nil
  then show ?case by simp
next
  case (Cons c t)
  from Cons.prems obtain bs p' where bs: "encode_cp c = Some bs"
    and p': "encode_utf8 t = Inr p'" and p: "p = bs @ p'"
    by (auto split: option.splits sum.splits)
  from decode_encode_cp [OF bs, of "p' @ rest"] Cons.IH [OF p'] show ?case
    by (simp add: p)
qed

lemma rstrip_snoc: "rstrip (xs @ [y]) c = (if y = c then rstrip xs c else xs @ [y])"
  by (simp add: rstrip_def)

lemma rstrip_last: "bs \<noteq> [] \<Longrightarrow> last bs \<noteq> c \<Longrightarrow> rstrip (xs @ bs) c = xs @ bs"
proof -
  assume "bs \<noteq> []" and l: "last bs \<noteq> c"
  then obtain ys y where bs: "bs = ys @ [y]" by (metis append_butlast_last_id)
  with l have "y \<noteq> c" by simp
  then have "rstrip ((xs @ ys) @ [y]) c = (xs @ ys) @ [y]" by (simp only: rstrip_snoc if_False)
  then show ?thesis by (simp add: bs)
qed

lemma encode_utf8_snoc:
  "encode_utf8 (t @ [c]) =
     (case encode_utf8 t of
        Inl e \<Rightarrow> Inl UnicodeEncodeError
      | Inr p \<Rightarrow> (case encode_cp c of None \<Rightarrow> Inl UnicodeEncodeError | Some bs \<Rightarrow> Inr (p @ bs)))"
proof (induction t)
  case Nil
  then show ?case by (simp split: option.splits)
next
  case (Cons a t)
  then show ?case by (simp split: option.splits sum.splits)
qed

lemma encode_cp_last:
  assumes "encode_cp c = Some bs"
  shows "bs \<noteq> []" and "c = 0 \<Longrightarrow> bs = [0]" and "c \<noteq> 0 \<Longrightarrow> last bs \<noteq> 0"
proof -
  from assms show "bs \<noteq> []" by (auto simp: encode_cp_def split: if_splits)
  from assms show "bs = [0]" if "c = 0" using that by (simp add: encode_cp_def)
  show "last bs \<noteq> 0" if nz: "c \<noteq> 0"
  proof (cases "c < 0x80")
    case True
    with assms have bs: "bs = [of_nat c]" by (simp add: encode_cp_def)
    from True have "unat (of_nat c :: byte) = c" by (intro unat_byte) simp
    with nz have "(of_nat c :: byte) \<noteq> 0" by (metis unat_0)
    then show ?thesis by (simp add: bs)
  next
    case False
    with assms have l: "last bs = of_nat (0x80 + c mod 64)"
      by (auto simp: encode_cp_def split: if_splits)
    have "unat (of_nat (0x80 + c mod 64) :: byte) = 0x80 + c mod 64"
      by (intro unat_byte) simp
    then have "(of_nat (0x80 + c mod 64) :: byte) \<noteq> 0" by (metis add_is_0 unat_0 zero_neq_numeral)
    then show ?thesis by (simp only: l) simp
  qed
qed

lemma encode_utf8_rstrip:
  "encode_utf8 t = Inr p \<Longrightarrow> encode_utf8 (rstrip t 0) = Inr (rstrip p 0)"
proof (induction t arbitrary: p rule: rev_induct)
  case Nil
  then show ?case by (simp add: rstrip_def)
next
  case (snoc c t)
  from snoc.prems obtain p' bs where p': "encode_utf8 t = Inr p'"
    and bs: "encode_cp c = Some bs" and p: "p = p' @ bs"
    by (auto simp: encode_utf8_snoc split: sum.splits option.splits)
  show ?case
  proof (cases "c = 0")
    case True
    with encode_cp_last(2) [OF bs] have "bs = [0]" by simp
    then have "rstrip p 0 = rstrip p' 0" by (simp add: p rstrip_snoc)
    moreover have "rstrip (t @ [c]) 0 = rstrip t 0" using True by (simp add: rstrip_snoc)
    ultimately show ?thesis using snoc.IH [OF p'] by simp
  next
    case False
    from encode_cp_last(1,3) [OF bs] False have "rstrip (p' @ bs) 0 = p' @ bs"
      by (intro rstrip_last) simp_all
    moreover have "rstrip (t @ [c]) 0 = t @ [c]" using False by (simp add: rstrip_snoc)
    ultimately show ?thesis using snoc.prems by (simp add: p)
  qed
qed

lemma decode_text_valid:
  assumes "encode_utf8 t = Inr p"
  shows "decode_text p = rstrip t 0" and "decode_text_spec p = rstrip t 0"
proof -
  from decode_encode_utf8 [OF encode_utf8_rstrip [OF assms], of "[]"]
  show "decode_text p = rstrip t 0" by (simp add: decode_text_def)
  from decode_encode_utf8 [OF assms, of "[]"]
  show "decode_text_spec p = rstrip t 0" by (simp add: decode_text_spec_def)
qed

text \<open>
  C5, as the specification has it, fails: the code strips the NUL bytes of the payload
  first and decodes afterwards. On the payload \<^verbatim>\<open>a\<close>, NUL, \<open>0xFF\<close> nothing is stripped,
  the invalid byte is dropped by the decoder, and the NUL stays; decoding first and
  stripping the text afterwards removes it.
\<close>

theorem decode_text_order_counterexample:
  "decode_text [0x61, 0, 0xFF] = [0x61, 0] \<and> decode_text_spec [0x61, 0, 0xFF] = [0x61]"
  by (simp add: decode_text_def decode_text_spec_def rstrip_def)

text \<open>
  C5, amended. Each string of \<^verbatim>\<open>get_strings\<close> is the lossy UTF-8 decoding of the payload
  without its trailing NUL bytes (strip, then decode); the payloads are read only. When
  the payload is valid UTF-8, the encoding of a text \<open>t\<close>, this is the specification's
  text, decoding first and stripping afterwards, and it is \<open>t\<close> without its
  trailing NUL characters.
\<close>

theorem decode_text_strips_first:
  "get_strings d = map (\<lambda>p. decode_utf8_ignore (rstrip p 0)) (str_bytes d) \<and>
   (\<forall>t. encode_utf8 t = Inr p \<longrightarrow> decode_text p = decode_text_spec p \<and> decode_text p = rstrip t 0)"
  using decode_text_valid by (simp add: get_strings_def decode_text_def [abs_def])

theorem decode_text_strips_first_witness:
  "get_strings doc_two = [[0x61], [0x62]] \<and>
   encode_utf8 [0x61, 0xE9, 0, 0] = Inr [0x61, 0xC3, 0xA9, 0, 0] \<and>
   decode_text [0x61, 0xC3, 0xA9, 0, 0] = decode_text_spec [0x61, 0xC3, 0xA9, 0, 0] \<and>
   decode_text [0x61, 0xC3, 0xA9, 0, 0] = [0x61, 0xE9]"
proof -
  have e: "encode_utf8 [0x61, 0xE9, 0, 0] = Inr [0x61, 0xC3, 0xA9, 0, 0]"
    by (simp add: encode_cp_def)
  have r: "rstrip [0x61, 0xE9, 0, 0 :: nat] 0 = [0x61, 0xE9]" by (simp add: rstrip_def)
  from decode_text_strips_first [of doc_two "[0x61, 0xC3, 0xA9, 0, 0]"]
  have g: "get_strings doc_two = map (\<lambda>p. decode_utf8_ignore (rstrip p 0)) (str_bytes doc_two)"
    and a: "\<forall>t. encode_utf8 t = Inr [0x61, 0xC3, 0xA9, 0, 0] \<longrightarrow>
          decode_text [0x61, 0xC3, 0xA9, 0, 0] = decode_text_spec [0x61, 0xC3, 0xA9, 0, 0] \<and>
          decode_text [0x61, 0xC3, 0xA9, 0, 0] = rstrip t 0"
    by blast+
  from g have "get_strings doc_two = [[0x61], [0x62]]"
    by (simp add: doc_two_def rstrip_def)
  moreover from a [rule_format, OF e]
  have x: "decode_text [0x61, 0xC3, 0xA9, 0, 0] = decode_text_spec [0x61, 0xC3, 0xA9, 0, 0]"
    and y: "decode_text [0x61, 0xC3, 0xA9, 0, 0] = rstrip [0x61, 0xE9, 0, 0] 0"
    by blast+
  note x y [unfolded r]
  ultimately show ?thesis using e by blast
qed

section \<open>The listing route\<close>

lemma map_nth_upt_slice:
  "b \<le> length xs \<Longrightarrow> map (\<lambda>i. xs ! i) [a..<b] = slice xs a b"
  by (rule nth_equalityI) (auto simp: slice_def)

lemma py_bound_nonneg: "0 \<le> i \<Longrightarrow> py_bound n i = min (nat i) n"
  by (simp add: py_bound_def)

lemma slice_min: "b \<le> length xs \<Longrightarrow> slice xs (min a (length xs)) b = slice xs a b"
  by (cases "a \<le> length xs") (auto simp: slice_def min_def)

text \<open>
  C9, as the specification has it, fails on a negative page size: \<open>ex_two\<close> holds
  the strings \<^verbatim>\<open>a\<close> and \<^verbatim>\<open>b\<close>; for page 1 and size \<open>- 1\<close> the bounds are 0 and
  \<open>- 1\<close>, the specification's slice is empty, and the route returns the first string
  (a negative bound of a Python slice counts from the end).
\<close>

theorem get_strings_page_negative_counterexample:
  "get_strings_page (Map.empty(''f'' \<mapsto> ex_two)) ''f'' 1 (- 1)
     = Json \<lparr>strings = [[0x61]], start_index = 0, has_more = True\<rparr> \<and>
   page_spec (get_strings doc_two) 1 (- 1) = \<lparr>strings = [], start_index = 0, has_more = True\<rparr> \<and>
   parse ex_two = Inr doc_two"
  by (simp add: get_strings_page_def parse_ex_two get_strings_two py_slice_def py_bound_def
        slice_def Let_def page_spec_def)

text \<open>
  C9, amended. For a file that \<^verbatim>\<open>parse\<close> accepts, a page number \<open>p \<ge> 1\<close> and a page
  size \<open>s \<ge> 0\<close>, the route returns the decoded strings at the indices from
  \<open>(p - 1) * s\<close> up to, not including, \<open>min (p * s) descriptor_count\<close>, the starting
  index \<open>(p - 1) * s\<close>, and a flag that is true exactly when that upper bound is below
  \<open>descriptor_count\<close>.
\<close>

theorem get_strings_page_slice:
  assumes "uploads filename = Some contents" and "parse contents = Inr d"
    and "1 \<le> page" and "0 \<le> limit"
  shows "get_strings_page uploads filename page limit = Json (page_spec (get_strings d) page limit)
         \<and> length (get_strings d) = string_literal_count d"
proof -
  let ?all = "get_strings d"
  let ?n = "int (length ?all)"
  let ?a = "(page - 1) * limit"
  let ?b = "min (?a + limit) ?n"
  have a0: "0 \<le> ?a" using assms(3,4) by simp
  have pl: "page * limit = ?a + limit" by (simp add: algebra_simps)
  have b0: "0 \<le> ?b" using a0 assms(4) by simp
  have bn: "nat ?b \<le> length ?all" by simp
  have "min (nat ?b) (length ?all) = nat ?b" using bn by (rule min_absorb1)
  then have "py_slice ?all ?a ?b = slice ?all (min (nat ?a) (length ?all)) (nat ?b)"
    unfolding py_slice_def py_bound_nonneg [OF a0] py_bound_nonneg [OF b0] by simp
  also have "\<dots> = slice ?all (nat ?a) (nat ?b)"
    using bn by (rule slice_min)
  also have "\<dots> = map (\<lambda>i. ?all ! i) [nat ?a..<nat ?b]"
    using map_nth_upt_slice [OF bn] by simp
  finally have "py_slice ?all ?a ?b = map (\<lambda>i. ?all ! i) [nat ?a..<nat ?b]" .
  then have "get_strings_page uploads filename page limit = Json (page_spec ?all page limit)"
    using assms(1,2) by (simp add: get_strings_page_def page_spec_def Let_def pl)
  moreover have "length ?all = string_literal_count d"
    using parse_count [OF assms(2)] by (simp add: get_strings_def)
  ultimately show ?thesis by simp
qed

theorem get_strings_page_slice_witness:
  "get_strings_page (Map.empty(''f'' \<mapsto> ex_two)) ''f'' 2 1
     = Json \<lparr>strings = [[0x62]], start_index = 1, has_more = False\<rparr>"
proof -
  have "get_strings_page (Map.empty(''f'' \<mapsto> ex_two)) ''f'' 2 1
      = Json (page_spec (get_strings doc_two) 2 1)"
    using get_strings_page_slice [of "Map.empty(''f'' \<mapsto> ex_two)" "''f''" ex_two doc_two 2 1]
    by (simp add: parse_ex_two)
  then show ?thesis
    by (simp add: page_spec_def get_strings_two Let_def upt_conv_Cons)
qed

section \<open>The writes of save\<close>

lemma length_overwrite:
  "length (overwrite buf pos bs) = max (length buf) (min pos (length buf) + length bs)"
  by (auto simp: overwrite_def slice_assign_def)

lemma length_overwrite_in [simp]:
  "pos + length bs \<le> length buf \<Longrightarrow> length (overwrite buf pos bs) = length buf"
  by (simp add: length_overwrite)

lemma length_overwrite_ge: "length buf \<le> length (overwrite buf pos bs)"
  by (simp add: length_overwrite)

lemma nth_overwrite:
  "pos \<le> length buf \<Longrightarrow> j < max (length buf) (pos + length bs) \<Longrightarrow>
   overwrite buf pos bs ! j = (if pos \<le> j \<and> j < pos + length bs then bs ! (j - pos) else buf ! j)"
  by (auto simp: overwrite_def slice_assign_def nth_append min_def)

lemma nth_overwrite_frame:
  "j < length buf \<Longrightarrow> j < pos \<or> pos + length bs \<le> j \<Longrightarrow> overwrite buf pos bs ! j = buf ! j"
  by (auto simp: overwrite_def slice_assign_def nth_append min_def)

lemma overwrite_append:
  "pos \<le> length buf \<Longrightarrow>
   overwrite (overwrite buf pos a) (pos + length a) b = overwrite buf pos (a @ b)"
  by (simp add: overwrite_def slice_assign_def min_def ac_simps)

lemma overwrite_Nil [simp]: "overwrite buf pos [] = buf"
  by (simp add: overwrite_def slice_assign_def)

lemma write_payloads_overwrite:
  "pos \<le> length fd \<Longrightarrow> write_payloads fd pos sbs = overwrite fd pos (concat sbs)"
proof (induction sbs arbitrary: fd pos)
  case Nil
  then show ?case by simp
next
  case (Cons data rest)
  have "pos + length data \<le> length (overwrite fd pos data)"
    using Cons.prems by (simp add: length_overwrite)
  from Cons.IH [OF this] show ?case
    using Cons.prems by (simp add: overwrite_append overwrite_def [symmetric])
qed

lemma length_write_payloads_ge: "length fd \<le> length (write_payloads fd pos sbs)"
proof (induction sbs arbitrary: fd pos)
  case Nil
  then show ?case by simp
next
  case (Cons data rest)
  have "length fd \<le> length (overwrite fd pos data)" by (rule length_overwrite_ge)
  also have "\<dots> \<le> length (write_payloads (overwrite fd pos data) (pos + length data) rest)"
    by (rule Cons.IH)
  finally show ?case by (simp add: overwrite_def)
qed

lemma nth_write_payloads_frame:
  "j < length fd \<Longrightarrow> j < pos \<or> pos + length (concat sbs) \<le> j \<Longrightarrow>
   write_payloads fd pos sbs ! j = fd ! j"
proof (induction sbs arbitrary: fd pos)
  case Nil
  then show ?case by simp
next
  case (Cons data rest)
  let ?fd = "overwrite fd pos data"
  have l: "j < length ?fd" using Cons.prems(1) length_overwrite_ge [of fd pos data] by simp
  have o: "j < pos + length data \<or> pos + length data + length (concat rest) \<le> j"
    using Cons.prems(2) by auto
  have "write_payloads ?fd (pos + length data) rest ! j = ?fd ! j"
    using Cons.IH [OF l o] .
  also have "\<dots> = fd ! j"
    using Cons.prems by (intro nth_overwrite_frame) auto
  finally show ?case by (simp add: overwrite_def)
qed

lemma length_lit_bytes [simp]: "length (lit_bytes l) = 8"
  by (simp add: lit_bytes_def)

lemma length_table_bytes [simp]: "length (table_bytes lits) = 8 * length lits"
  by (induction lits) (auto simp: table_bytes_def)

lemma length_repack [simp]: "length (repack oc ps) = length ps"
  by (induction ps arbitrary: oc) auto

lemma pack_into_II_overwrite:
  "a < 2 ^ 32 \<Longrightarrow> b < 2 ^ 32 \<Longrightarrow> pos + 8 \<le> length buf \<Longrightarrow>
   pack_into_II buf pos a b = Inr (overwrite buf pos (le_bytes 4 a @ le_bytes 4 b))"
  by (simp add: pack_into_II_def overwrite_def slice_assign_def)

lemma write_literals_eq:
  assumes "i + length lits \<le> length sb"
    and "lits = [] \<or> pos + 8 * length lits \<le> length fd"
    and "oc + sum_list (map length (take (length lits) (drop i sb))) < 2 ^ 32"
  shows "write_literals sb i lits fd pos oc =
           Inr (repack oc (take (length lits) (drop i sb)),
                overwrite fd pos (table_bytes (repack oc (take (length lits) (drop i sb)))),
                oc + sum_list (map length (take (length lits) (drop i sb))))"
  using assms
proof (induction lits arbitrary: i fd pos oc)
  case Nil
  then show ?case by (simp add: table_bytes_def)
next
  case (Cons lit lits)
  let ?p = "sb ! i"
  let ?rest = "take (length lits) (drop (Suc i) sb)"
  from Cons.prems(1) have i: "i < length sb" by simp
  have ps: "take (length (lit # lits)) (drop i sb) = ?p # ?rest"
    using i by (simp add: Cons_nth_drop_Suc [symmetric])
  from Cons.prems(3) have sz: "oc + length ?p + sum_list (map length ?rest) < 2 ^ 32"
    unfolding ps by simp
  from Cons.prems(2) have b: "pos + 8 \<le> length fd" by simp
  let ?fd = "overwrite fd pos (le_bytes 4 (length ?p) @ le_bytes 4 oc)"
  have pk: "pack_into_II fd pos (length ?p) oc = Inr ?fd"
    using sz b by (intro pack_into_II_overwrite) auto
  have l': "length ?fd = length fd" using b by simp
  have ih: "write_literals sb (Suc i) lits ?fd (pos + 8) (oc + length ?p) =
      Inr (repack (oc + length ?p) ?rest,
           overwrite ?fd (pos + 8) (table_bytes (repack (oc + length ?p) ?rest)),
           oc + length ?p + sum_list (map length ?rest))"
  proof (rule Cons.IH)
    show "Suc i + length lits \<le> length sb" using Cons.prems(1) by simp
    show "lits = [] \<or> pos + 8 + 8 * length lits \<le> length ?fd"
      using Cons.prems(2) l' by simp
    show "oc + length ?p + sum_list (map length ?rest) < 2 ^ 32" by (rule sz)
  qed
  have ov: "overwrite ?fd (pos + 8) (table_bytes (repack (oc + length ?p) ?rest)) =
      overwrite fd pos (table_bytes (repack oc (?p # ?rest)))"
  proof -
    have "pos \<le> length fd" using b by simp
    from overwrite_append [OF this, of "le_bytes 4 (length ?p) @ le_bytes 4 oc"]
    show ?thesis by (simp add: table_bytes_def lit_bytes_def)
  qed
  have lit': "lit\<lparr>offset_lit := oc, length_lit := length ?p\<rparr> = \<lparr>length_lit = length ?p, offset_lit = oc\<rparr>"
    by simp
  show ?case unfolding ps
    using i pk ih ov by (simp add: Let_def lit' add.assoc)
qed

lemma write_padding_eq:
  "write_padding fd sldo oc =
     (if padding_needed sldo oc \<noteq> 0
      then (overwrite (fd @ replicate (sldo + oc + padding_needed sldo oc - length fd) 0)
              (sldo + oc) (replicate (padding_needed sldo oc) 0),
            oc + padding_needed sldo oc)
      else (fd, oc))"
proof -
  let ?e = "sldo + oc" and ?p = "padding_needed sldo oc"
  have "length (replicate ?p (0::byte)) = ?p" by simp
  show ?thesis
  proof (cases "?p = 0")
    case True
    then show ?thesis by (simp add: write_padding_def padding_needed_def Let_def)
  next
    case False
    have f: "(if ?e + ?p > length fd then fd @ replicate (?e + ?p - length fd) 0 else fd)
        = fd @ replicate (?e + ?p - length fd) 0"
      by simp
    have "write_padding fd sldo oc =
       (slice_assign (fd @ replicate (?e + ?p - length fd) 0) ?e (?e + ?p) (replicate ?p 0), oc + ?p)"
      using False unfolding write_padding_def Let_def padding_needed_def [symmetric] f by simp
    then show ?thesis using False by (simp add: overwrite_def)
  qed
qed

lemma pad_mod4: "(x + (4 - x mod 4) mod 4) mod 4 = (0::nat)"
proof -
  define r where "r = x mod 4"
  have r: "r < 4" by (simp add: r_def)
  have "(x + (4 - r) mod 4) mod 4 = (r + (4 - r) mod 4) mod 4"
    unfolding r_def by (rule mod_add_left_eq [symmetric])
  also from r have "r = 0 \<or> r = 1 \<or> r = 2 \<or> r = 3" by linarith
  then have "(r + (4 - r) mod 4) mod 4 = 0" by auto
  finally show ?thesis by (simp add: r_def)
qed

lemma padding_aligned: "(sldo + (oc + padding_needed sldo oc)) mod 4 = 0"
  using pad_mod4 [of "sldo + oc"] by (simp add: padding_needed_def add.assoc)

lemma padding_lt4: "padding_needed sldo oc < 4"
  unfolding padding_needed_def by simp

lemma length_write_padding_ge: "length fd \<le> length (fst (write_padding fd sldo oc))"
  by (simp add: write_padding_eq length_overwrite)

lemma length_write_padding_end:
  "padding_needed sldo oc \<noteq> 0 \<Longrightarrow>
   sldo + oc + padding_needed sldo oc \<le> length (fst (write_padding fd sldo oc))"
  by (simp add: write_padding_eq length_overwrite)

lemma nth_write_padding_frame:
  assumes "j < length fd" and "j < sldo + oc \<or> sldo + oc + padding_needed sldo oc \<le> j"
  shows "fst (write_padding fd sldo oc) ! j = fd ! j"
proof (cases "padding_needed sldo oc = 0")
  case True
  then show ?thesis by (simp add: write_padding_eq)
next
  case False
  let ?fd = "fd @ replicate (sldo + oc + padding_needed sldo oc - length fd) 0"
  have "overwrite ?fd (sldo + oc) (replicate (padding_needed sldo oc) 0) ! j = ?fd ! j"
    using assms by (intro nth_overwrite_frame) auto
  also have "\<dots> = fd ! j" using assms(1) by (simp add: nth_append)
  finally show ?thesis using False by (simp add: write_padding_eq)
qed

lemma nth_write_padding_zero:
  assumes "sldo + oc \<le> j" and "j < sldo + oc + padding_needed sldo oc"
  shows "fst (write_padding fd sldo oc) ! j = 0"
proof -
  from assms have nz: "padding_needed sldo oc \<noteq> 0" by auto
  let ?fd = "fd @ replicate (sldo + oc + padding_needed sldo oc - length fd) 0"
  have le: "sldo + oc \<le> length ?fd" by simp
  have "overwrite ?fd (sldo + oc) (replicate (padding_needed sldo oc) 0) ! j =
      replicate (padding_needed sldo oc) 0 ! (j - (sldo + oc))"
    using assms le by (simp add: nth_overwrite)
  also have "\<dots> = 0" using assms by simp
  finally show ?thesis using nz by (simp add: write_padding_eq)
qed

lemma snd_write_padding: "snd (write_padding fd sldo oc) = oc + padding_needed sldo oc"
  by (simp add: write_padding_eq)

lemma le_nat_take4: "le_nat (take 4 xs) < 2 ^ 32"
proof -
  have "le_nat (take 4 xs) < 256 ^ length (take 4 xs)"
    by (rule le_nat_bound)
  also have "\<dots> \<le> (256::nat) ^ 4" by (intro power_increasing) auto
  also have "\<dots> = 2 ^ 32" by simp
  finally show ?thesis .
qed

lemma doc_inv_parse: "parse f = Inr d \<Longrightarrow> doc_inv d"
proof -
  assume p: "parse f = Inr d"
  then obtain h where h: "parse_header f = Inr h"
    and s: "string_literal_data_offset d = h_string_literal_data_offset h"
    and n: "length (string_literals d) = length (str_bytes d)"
    and dip: "data_info_position d = 16"
    and fd: "file_data d = f"
    and tb: "string_literals d = [] \<or>
      string_literal_offset d + 8 * length (string_literals d) \<le> length f"
    by (auto simp: parse_Inr_iff Let_def)
  from parse_header_Inr [OF h] have l: "24 \<le> length f"
    and o: "h_string_literal_data_offset h = le_nat (take 4 (drop 16 f))"
    by blast+
  have "string_literal_data_offset d < 2 ^ 32"
    unfolding s o by (rule le_nat_take4)
  with n dip fd tb l show ?thesis
    unfolding doc_inv_def by blast
qed

lemma doc_inv_set_strings: "doc_inv d \<Longrightarrow> doc_inv (set_strings d calls)"
  using set_strings_fixed [of d calls] by (auto simp: doc_inv_def)

lemma save_eq:
  assumes "doc_inv d"
    and "packed_size d + padding_needed (string_literal_data_offset d) (packed_size d) < 2 ^ 32"
  shows "save d = Inr (d\<lparr>string_literals := repack 0 (str_bytes d), file_data := save_bytes d\<rparr>,
                       save_bytes d)"
proof -
  let ?sb = "str_bytes d" and ?sldo = "string_literal_data_offset d"
  let ?fd1 = "overwrite (file_data d) (string_literal_offset d) (table_bytes (repack 0 ?sb))"
  let ?oc2 = "packed_size d + padding_needed ?sldo (packed_size d)"
  let ?fd2 = "fst (write_padding ?fd1 ?sldo (packed_size d))"
  let ?fd3 = "write_payloads ?fd2 ?sldo ?sb"
  from assms(1) have n: "length (string_literals d) = length ?sb"
    and l24: "24 \<le> length (file_data d)" and dip: "data_info_position d = 16"
    and tb: "string_literals d = [] \<or>
      string_literal_offset d + 8 * length (string_literals d) \<le> length (file_data d)"
    and s32: "?sldo < 2 ^ 32"
    by (auto simp: doc_inv_def)
  have tk: "take (length (string_literals d)) (drop 0 ?sb) = ?sb" using n by simp
  have wl: "write_literals ?sb 0 (string_literals d) (file_data d) (string_literal_offset d) 0 =
      Inr (repack 0 ?sb, ?fd1, packed_size d)"
  proof -
    have "0 + sum_list (map length (take (length (string_literals d)) (drop 0 ?sb))) < 2 ^ 32"
      using assms(2) unfolding tk by (simp add: packed_size_def)
    from write_literals_eq [OF _ tb this] n show ?thesis
      unfolding tk by (simp add: packed_size_def)
  qed
  have "length (file_data d) \<le> length ?fd1" by (rule length_overwrite_ge)
  also have "\<dots> \<le> length ?fd2" by (rule length_write_padding_ge)
  also have "\<dots> \<le> length ?fd3" by (rule length_write_payloads_ge)
  finally have l3: "16 + 8 \<le> length ?fd3" using l24 by simp
  have pk: "pack_into_II ?fd3 16 ?sldo ?oc2 =
      Inr (overwrite ?fd3 16 (le_bytes 4 ?sldo @ le_bytes 4 ?oc2))"
    using s32 assms(2) l3 by (rule pack_into_II_overwrite)
  show ?thesis
    by (simp add: save_def wl pk dip save_bytes_def Let_def split_beta snd_write_padding)
qed

lemma repack_nth:
  "i < length ps \<Longrightarrow>
   repack oc ps ! i =
     \<lparr>length_lit = length (ps ! i), offset_lit = oc + sum_list (map length (take i ps))\<rparr>"
proof (induction ps arbitrary: oc i)
  case Nil
  then show ?case by simp
next
  case (Cons p ps)
  show ?case
  proof (cases i)
    case 0
    then show ?thesis by simp
  next
    case (Suc k)
    with Cons.prems have "k < length ps" by simp
    from Cons.IH [OF this, of "oc + length p"] Suc show ?thesis by (simp add: add.assoc)
  qed
qed

lemma sum_take_mono:
  "a \<le> b \<Longrightarrow> sum_list (map length (take a ps)) \<le> sum_list (map length (take b ps))"
proof -
  assume "a \<le> b"
  then have "take b ps = take a ps @ take (b - a) (drop a ps)"
    by (metis le_add_diff_inverse take_add)
  then show ?thesis by simp
qed

lemma sum_take_Suc:
  "i < length ps \<Longrightarrow>
   sum_list (map length (take (Suc i) ps)) = sum_list (map length (take i ps)) + length (ps ! i)"
  by (simp add: take_Suc_conv_app_nth)

lemma table_bytes_slice:
  "i < length lits \<Longrightarrow> take 8 (drop (8 * i) (table_bytes lits)) = lit_bytes (lits ! i)"
proof (induction lits arbitrary: i)
  case Nil
  then show ?case by simp
next
  case (Cons l lits)
  show ?case
  proof (cases i)
    case 0
    then show ?thesis by (simp add: table_bytes_def)
  next
    case (Suc k)
    with Cons.prems have "k < length lits" by simp
    from Cons.IH [OF this] Suc show ?thesis by (simp add: table_bytes_def)
  qed
qed

lemma slice_overwrite_in:
  "pos \<le> length buf \<Longrightarrow> k + n \<le> length bs \<Longrightarrow>
   take n (drop (pos + k) (overwrite buf pos bs)) = take n (drop k bs)"
  by (simp add: overwrite_def slice_assign_def min_def)

lemma slice_overwrite_out:
  "pos \<le> length buf \<Longrightarrow> a + n \<le> pos \<or> pos + length bs \<le> a \<Longrightarrow>
   take n (drop a (overwrite buf pos bs)) = take n (drop a buf)"
  by (auto simp: overwrite_def slice_assign_def min_def drop_take)

lemma le_nat_lit_bytes:
  "length_lit l < 2 ^ 32 \<Longrightarrow> offset_lit l < 2 ^ 32 \<Longrightarrow>
   le_nat (take 4 (lit_bytes l)) = length_lit l \<and> le_nat (take 4 (drop 4 (lit_bytes l))) = offset_lit l"
  by (simp add: lit_bytes_def le_nat_le_bytes4)

lemma lit_at_table:
  assumes "pos \<le> length buf" and "i < length lits"
    and "length_lit (lits ! i) < 2 ^ 32" and "offset_lit (lits ! i) < 2 ^ 32"
  shows "lit_at (overwrite buf pos (table_bytes lits)) (pos + i * 8) = lits ! i"
proof -
  let ?X = "overwrite buf pos (table_bytes lits)"
  have b: "8 * i + 8 \<le> length (table_bytes lits)" using assms(2) by simp
  have e: "take 8 (drop (pos + 8 * i) ?X) = lit_bytes (lits ! i)"
    using slice_overwrite_in [OF assms(1) b] table_bytes_slice [OF assms(2)] by simp
  have "take 4 (drop (pos + i * 8) ?X) = take 4 (take 8 (drop (pos + 8 * i) ?X))"
    by (simp add: mult.commute)
  then have 1: "take 4 (drop (pos + i * 8) ?X) = take 4 (lit_bytes (lits ! i))"
    by (simp only: e)
  have "take 4 (drop (pos + i * 8 + 4) ?X) = take 4 (drop 4 (take 8 (drop (pos + 8 * i) ?X)))"
    by (simp add: drop_take mult.commute add.commute)
  then have 2: "take 4 (drop (pos + i * 8 + 4) ?X) = take 4 (drop 4 (lit_bytes (lits ! i)))"
    by (simp only: e)
  show ?thesis
    unfolding lit_at_def 1 2 using le_nat_lit_bytes [OF assms(3,4)] by simp
qed

lemma header_pair_read:
  assumes "16 + 8 \<le> length buf" and "a < 2 ^ 32" and "b < 2 ^ 32"
  shows "le_nat (slice (overwrite buf 16 (le_bytes 4 a @ le_bytes 4 b)) 16 20) = a \<and>
         le_nat (slice (overwrite buf 16 (le_bytes 4 a @ le_bytes 4 b)) 20 24) = b"
proof -
  let ?H = "le_bytes 4 a @ le_bytes 4 b"
  have p: "16 \<le> length buf" using assms(1) by simp
  have "take 4 (drop (16 + 0) (overwrite buf 16 ?H)) = take 4 (drop 0 ?H)"
    by (rule slice_overwrite_in [OF p]) simp
  moreover have "take 4 (drop (16 + 4) (overwrite buf 16 ?H)) = take 4 (drop 4 ?H)"
    by (rule slice_overwrite_in [OF p]) simp
  ultimately show ?thesis
    using assms(2,3) by (simp add: slice_def le_nat_le_bytes4)
qed

lemma save_ok:
  assumes "parse f = Inr d0" and "d = set_strings d0 calls"
    and "packed_size d + padding_needed (string_literal_data_offset d) (packed_size d) < 2 ^ 32"
  shows "doc_inv d"
    and "save d = Inr (d\<lparr>string_literals := repack 0 (str_bytes d), file_data := save_bytes d\<rparr>,
                       save_bytes d)"
    and "file_data d = f"
    and "length (str_bytes d) = string_literal_count d"
proof -
  show i: "doc_inv d" using assms(1,2) doc_inv_parse doc_inv_set_strings by blast
  show "save d = Inr (d\<lparr>string_literals := repack 0 (str_bytes d), file_data := save_bytes d\<rparr>,
                       save_bytes d)"
    using i assms(3) by (rule save_eq)
  from assms(1) have "file_data d0 = f" by (auto simp: parse_Inr_iff Let_def)
  then show "file_data d = f" using set_strings_fixed [of d0 calls] assms(2) by simp
  show "length (str_bytes d) = string_literal_count d"
    using parse_count [OF assms(1)] set_strings_fixed [of d0 calls] assms(2) by simp
qed

lemma length_concat_sum: "length (concat xs) = sum_list (map length xs)"
  by (induction xs) auto

lemma le_bytes4:
  "le_bytes 4 n = [of_nat (n mod 256), of_nat (n div 256 mod 256),
     of_nat (n div 256 div 256 mod 256), of_nat (n div 256 div 256 div 256 mod 256)]"
proof -
  have "(4::nat) = Suc (Suc (Suc (Suc 0)))" by simp
  then show ?thesis by (simp only: le_bytes.simps)
qed
lemma le_bytes4_small: "n < 256 \<Longrightarrow> le_bytes 4 n = [of_nat n, 0, 0, 0]"
  by (simp add: le_bytes4)

lemma pad_block:
  assumes "(e + p) mod 4 = (0::nat)" and "p < 4" and "e \<le> j" and "j < e + p"
  shows "e + p = 4 * (j div 4) + 4 \<and> 4 * (j div 4) < e"
proof -
  from assms(1) obtain m where m: "e + p = 4 * m" by (auto simp: mod_eq_0_iff_dvd dvd_def)
  from assms(3,4) m have 1: "j < m * 4" by simp
  from assms(2,3) m have 2: "(m - 1) * 4 \<le> j" by simp
  from 1 have "j div 4 < m" by (simp add: div_less_iff_less_mult)
  moreover from 2 have "m - 1 \<le> j div 4" by (simp add: less_eq_div_iff_mult_less_eq)
  ultimately have "j div 4 + 1 = m" by linarith
  then show ?thesis using m assms by linarith
qed

lemma header_zero_in_padding:
  assumes al: "(sldo + oc + p) mod 4 = 0" and p4: "p < 4"
    and lo: "sldo + oc \<le> j" and hi: "j < sldo + oc + p" and j: "16 \<le> j" "j < 24"
  shows "(le_bytes 4 sldo @ le_bytes 4 (oc + p)) ! (j - 16) = 0"
proof -
  from pad_block [OF al p4 lo hi]
  have b: "sldo + oc + p = 4 * (j div 4) + 4" "4 * (j div 4) < sldo + oc" by simp_all
  show ?thesis
  proof (cases "j < 20")
    case True
    with j have "j div 4 = 4" by simp
    with b have "sldo + oc + p = 20" "16 < sldo + oc" by simp_all
    with lo have s: "sldo < 256" and k: "17 \<le> j" by simp_all
    from k True have "j = 17 \<or> j = 18 \<or> j = 19" by linarith
    then show ?thesis by (auto simp: le_bytes4_small [OF s])
  next
    case False
    with j have "j div 4 = 5" by simp
    with b have e: "sldo + oc + p = 24" "20 < sldo + oc" by simp_all
    then have s: "oc + p < 256" by simp
    from e lo have k: "21 \<le> j" by simp
    from k j have "j = 21 \<or> j = 22 \<or> j = 23" by linarith
    then show ?thesis by (auto simp: le_bytes4_small [OF s] nth_append)
  qed
qed

lemma save_bytes_padding_zero:
  assumes "doc_inv d"
    and lo: "string_literal_data_offset d + packed_size d \<le> j"
    and hi: "j < string_literal_data_offset d + packed_size d
                 + padding_needed (string_literal_data_offset d) (packed_size d)"
  shows "j < length (save_bytes d) \<and> save_bytes d ! j = 0"
proof -
  let ?sb = "str_bytes d" and ?sldo = "string_literal_data_offset d"
  let ?oc = "packed_size d"
  let ?p = "padding_needed ?sldo ?oc"
  let ?fd1 = "overwrite (file_data d) (string_literal_offset d) (table_bytes (repack 0 ?sb))"
  let ?fd2 = "fst (write_padding ?fd1 ?sldo ?oc)"
  let ?fd3 = "write_payloads ?fd2 ?sldo ?sb"
  let ?H = "le_bytes 4 ?sldo @ le_bytes 4 (?oc + ?p)"
  from assms(1) have l24: "24 \<le> length (file_data d)" by (simp add: doc_inv_def)
  from lo hi have nz: "?p \<noteq> 0" by auto
  have z2: "?fd2 ! j = 0" using lo hi by (rule nth_write_padding_zero)
  have l2: "?sldo + ?oc + ?p \<le> length ?fd2" using nz by (rule length_write_padding_end)
  then have j2: "j < length ?fd2" using hi by simp
  have "?fd3 ! j = ?fd2 ! j"
    using j2 lo by (intro nth_write_payloads_frame) (simp_all add: length_concat_sum packed_size_def)
  with z2 have z3: "?fd3 ! j = 0" by simp
  have l3: "length ?fd2 \<le> length ?fd3" by (rule length_write_payloads_ge)
  have "length (file_data d) \<le> length ?fd1" by (rule length_overwrite_ge)
  also have "\<dots> \<le> length ?fd2" by (rule length_write_padding_ge)
  finally have l3': "24 \<le> length ?fd3" using l24 l3 by simp
  have len: "length (overwrite ?fd3 16 ?H) = length ?fd3" using l3' by simp
  have j3: "j < length ?fd3" using j2 l3 by simp
  have "overwrite ?fd3 16 ?H ! j = 0"
  proof (cases "16 \<le> j \<and> j < 24")
    case True
    have "overwrite ?fd3 16 ?H ! j = ?H ! (j - 16)"
      using True l3' j3 by (simp add: nth_overwrite)
    also have "\<dots> = 0"
    proof (rule header_zero_in_padding [OF _ _ lo hi])
      show "(?sldo + ?oc + ?p) mod 4 = 0" using padding_aligned [of ?sldo ?oc] by (simp add: add.assoc)
      show "?p < 4" by (rule padding_lt4)
      show "16 \<le> j" "j < 24" using True by simp_all
    qed
    finally show ?thesis .
  next
    case False
    then have "overwrite ?fd3 16 ?H ! j = ?fd3 ! j"
      using j3 by (intro nth_overwrite_frame) auto
    with z3 show ?thesis by simp
  qed
  with len j3 show ?thesis by (simp add: save_bytes_def Let_def)
qed

lemma save_bytes_frame:
  assumes "doc_inv d" and j: "j < length (file_data d)"
    and t: "j < string_literal_offset d \<or>
            string_literal_offset d + 8 * length (str_bytes d) \<le> j"
    and r: "j < string_literal_data_offset d \<or>
            string_literal_data_offset d + (packed_size d
              + padding_needed (string_literal_data_offset d) (packed_size d)) \<le> j"
    and h: "j < 16 \<or> 24 \<le> j"
  shows "save_bytes d ! j = file_data d ! j" and "length (file_data d) \<le> length (save_bytes d)"
proof -
  let ?sb = "str_bytes d" and ?sldo = "string_literal_data_offset d"
  let ?oc = "packed_size d"
  let ?p = "padding_needed ?sldo ?oc"
  let ?fd1 = "overwrite (file_data d) (string_literal_offset d) (table_bytes (repack 0 ?sb))"
  let ?fd2 = "fst (write_padding ?fd1 ?sldo ?oc)"
  let ?fd3 = "write_payloads ?fd2 ?sldo ?sb"
  let ?H = "le_bytes 4 ?sldo @ le_bytes 4 (?oc + ?p)"
  have l1: "length (file_data d) \<le> length ?fd1" by (rule length_overwrite_ge)
  have l2: "length ?fd1 \<le> length ?fd2" by (rule length_write_padding_ge)
  have l3: "length ?fd2 \<le> length ?fd3" by (rule length_write_payloads_ge)
  have l4: "length ?fd3 \<le> length (overwrite ?fd3 16 ?H)" by (rule length_overwrite_ge)
  from l1 l2 l3 l4 show "length (file_data d) \<le> length (save_bytes d)"
    by (simp add: save_bytes_def Let_def)
  have "overwrite ?fd3 16 ?H ! j = ?fd3 ! j"
    using j l1 l2 l3 h by (intro nth_overwrite_frame) auto
  also have "\<dots> = ?fd2 ! j"
    using j l1 l2 r by (intro nth_write_payloads_frame) (auto simp: length_concat_sum packed_size_def)
  also have "\<dots> = ?fd1 ! j"
    using j l1 r by (intro nth_write_padding_frame) auto
  also have "\<dots> = file_data d ! j"
    using j t by (intro nth_overwrite_frame) auto
  finally show "save_bytes d ! j = file_data d ! j"
    by (simp add: save_bytes_def Let_def)
qed

lemma save_bytes_header:
  assumes "doc_inv d"
    and "packed_size d + padding_needed (string_literal_data_offset d) (packed_size d) < 2 ^ 32"
  shows "le_nat (slice (save_bytes d) 16 20) = string_literal_data_offset d \<and>
         le_nat (slice (save_bytes d) 20 24) =
           packed_size d + padding_needed (string_literal_data_offset d) (packed_size d)"
proof -
  let ?sb = "str_bytes d" and ?sldo = "string_literal_data_offset d"
  let ?fd1 = "overwrite (file_data d) (string_literal_offset d) (table_bytes (repack 0 ?sb))"
  let ?fd2 = "fst (write_padding ?fd1 ?sldo (packed_size d))"
  from assms(1) have l24: "24 \<le> length (file_data d)" and s32: "?sldo < 2 ^ 32"
    by (auto simp: doc_inv_def)
  have "length (file_data d) \<le> length ?fd1" by (rule length_overwrite_ge)
  also have "\<dots> \<le> length ?fd2" by (rule length_write_padding_ge)
  also have "\<dots> \<le> length (write_payloads ?fd2 ?sldo ?sb)" by (rule length_write_payloads_ge)
  finally have l3: "16 + 8 \<le> length (write_payloads ?fd2 ?sldo ?sb)" using l24 by simp
  show ?thesis
    unfolding save_bytes_def Let_def by (rule header_pair_read [OF l3 s32 assms(2)])
qed

lemma parse_ex_abc: "parse ex_abc = Inr doc_abc"
  by (simp add: parse_simps ex_abc_def doc_abc_def)

lemma parse_ex_long: "parse ex_long = Inr doc_long"
  by (simp add: parse_simps ex_long_def doc_long_def)

lemma set_hello:
  "set_strings doc_abc [(0, [104,101,108,108,111])] =
     doc_abc\<lparr>str_bytes := [[104,101,108,108,111,0]]\<rparr>"
  by (simp add: set_string_def encode_cp_def doc_abc_def)

lemma set_short:
  "set_strings doc_long [(0, [0x61])] = doc_long\<lparr>str_bytes := [[0x61, 0]]\<rparr>"
  by (simp add: set_string_def encode_cp_def doc_long_def)

section \<open>When save returns\<close>

lemma write_literals_Inr:
  "write_literals sb i lits fd pos oc0 = Inr (l, fd', oc) \<Longrightarrow> i + length lits \<le> length sb \<Longrightarrow>
   oc = oc0 + sum_list (map length (take (length lits) (drop i sb)))"
proof (induction lits arbitrary: i fd pos oc0 l fd' oc)
  case Nil
  then show ?case by simp
next
  case (Cons lit lits)
  from Cons.prems(2) have i: "i < length sb" by simp
  have ps: "take (length (lit # lits)) (drop i sb) = sb ! i # take (length lits) (drop (Suc i) sb)"
    using i by (simp add: Cons_nth_drop_Suc [symmetric])
  from Cons.prems(1) i obtain fd1 l1 where
    r: "write_literals sb (Suc i) lits fd1 (pos + 8) (oc0 + length (sb ! i)) = Inr (l1, fd', oc)"
    by (auto simp: Let_def split: sum.splits)
  from Cons.prems(2) have "Suc i + length lits \<le> length sb" by simp
  from Cons.IH [OF r this] show ?case unfolding ps by simp
qed

lemma save_Inr_size:
  assumes "doc_inv d" and "save d = Inr r"
  shows "packed_size d + padding_needed (string_literal_data_offset d) (packed_size d) < 2 ^ 32"
proof -
  from assms(1) have n: "length (string_literals d) = length (str_bytes d)"
    by (simp add: doc_inv_def)
  from assms(2) obtain lits fd1 oc where
    w: "write_literals (str_bytes d) 0 (string_literals d) (file_data d) (string_literal_offset d) 0
          = Inr (lits, fd1, oc)"
    by (auto simp: save_def split: sum.splits)
  from write_literals_Inr [OF w] n have oc: "oc = packed_size d" by (simp add: packed_size_def)
  from assms(2) obtain fd4 where
    "pack_into_II (write_payloads (fst (write_padding fd1 (string_literal_data_offset d) oc))
         (string_literal_data_offset d) (str_bytes d)) (data_info_position d)
       (string_literal_data_offset d) (snd (write_padding fd1 (string_literal_data_offset d) oc))
     = Inr fd4"
    by (auto simp: save_def w split_beta Let_def split: sum.splits)
  then have "snd (write_padding fd1 (string_literal_data_offset d) oc) < 2 ^ 32"
    by (simp add: pack_into_II_def split: if_splits)
  then show ?thesis by (simp add: snd_write_padding oc)
qed

lemma save_returns_iff:
  assumes "parse f = Inr d0" and "d = set_strings d0 calls"
  shows "(\<exists>r. save d = Inr r) \<longleftrightarrow>
         packed_size d + (4 - (string_literal_data_offset d + packed_size d) mod 4) mod 4 < 2 ^ 32"
proof -
  have i: "doc_inv d" using assms doc_inv_parse doc_inv_set_strings by blast
  show ?thesis
    using save_Inr_size [OF i] save_eq [OF i] by (auto simp: padding_needed_def)
qed

section \<open>Alignment after save\<close>

text \<open>
  The theorems on \<^verbatim>\<open>save\<close> are about an object that \<^verbatim>\<open>parse\<close> returned and that any
  sequence of \<^verbatim>\<open>set_string\<close> calls has edited. \<^verbatim>\<open>struct.pack_into\<close> takes 32-bit
  values only, so \<^verbatim>\<open>save\<close> returns exactly when the padded size of the string data is
  below \<open>2 ^ 32\<close> (\<open>save_returns_iff\<close>) and raises \<^verbatim>\<open>struct.error\<close> otherwise; the
  third assumption of each theorem says that \<^verbatim>\<open>save\<close> returns.
\<close>

text \<open>
  C7. After \<^verbatim>\<open>save\<close>, the size written at byte 20 of the header is the packed size
  plus the padding \<open>(4 - (string_data_offset + packed_size) mod 4) mod 4\<close>, the sum of
  the string-data offset and that size is a multiple of 4, and the bytes of the result
  right after the packed payloads, as many as the padding, are zero.
\<close>

theorem save_alignment:
  assumes "parse f = Inr d0" and "d = set_strings d0 calls"
    and "packed_size d + (4 - (string_literal_data_offset d + packed_size d) mod 4) mod 4 < 2 ^ 32"
  shows "\<exists>d' out. save d = Inr (d', out) \<and>
     (let sldo = string_literal_data_offset d;
          padding = (4 - (sldo + packed_size d) mod 4) mod 4;
          total = le_nat (slice out 20 24)
      in le_nat (slice out 16 20) = sldo \<and>
         total = packed_size d + padding \<and>
         (sldo + total) mod 4 = 0 \<and>
         slice out (sldo + packed_size d) (sldo + packed_size d + padding) = replicate padding 0)"
proof -
  let ?sldo = "string_literal_data_offset d" and ?oc = "packed_size d"
  let ?p = "padding_needed ?sldo ?oc"
  let ?out = "save_bytes d"
  from assms(3) have sz: "?oc + ?p < 2 ^ 32" by (simp add: padding_needed_def)
  note ok = save_ok [OF assms(1,2) sz]
  note hd = save_bytes_header [OF ok(1) sz]
  have al: "(?sldo + (?oc + ?p)) mod 4 = 0" by (rule padding_aligned)
  have z: "slice ?out (?sldo + ?oc) (?sldo + ?oc + ?p) = replicate ?p 0"
  proof (rule nth_equalityI)
    show "length (slice ?out (?sldo + ?oc) (?sldo + ?oc + ?p)) = length (replicate ?p (0::byte))"
    proof (cases "?p = 0")
      case True
      then show ?thesis by (simp add: slice_def)
    next
      case False
      then have "?sldo + ?oc \<le> ?sldo + ?oc + ?p - 1" "?sldo + ?oc + ?p - 1 < ?sldo + ?oc + ?p"
        by simp_all
      from save_bytes_padding_zero [OF ok(1) this]
      have "?sldo + ?oc + ?p - 1 < length ?out" by simp
      with False have "?sldo + ?oc + ?p \<le> length ?out" by linarith
      then show ?thesis by (simp add: slice_def)
    qed
  next
    fix i assume "i < length (slice ?out (?sldo + ?oc) (?sldo + ?oc + ?p))"
    then have i: "i < ?p" by (simp add: slice_def)
    then have "?sldo + ?oc \<le> ?sldo + ?oc + i" "?sldo + ?oc + i < ?sldo + ?oc + ?p" by simp_all
    from save_bytes_padding_zero [OF ok(1) this]
    show "slice ?out (?sldo + ?oc) (?sldo + ?oc + ?p) ! i = replicate ?p 0 ! i"
      using i by (simp add: slice_def)
  qed
  show ?thesis
    using ok(2) hd al z by (simp add: Let_def padding_needed_def)
qed

theorem save_alignment_witness:
  "parse ex_abc = Inr doc_abc \<and>
   (\<exists>d' out. save (doc_abc\<lparr>str_bytes := [[104,101,108,108,111,0]]\<rparr>) = Inr (d', out) \<and>
      le_nat (slice out 16 20) = 32 \<and> le_nat (slice out 20 24) = 8 \<and>
      slice out 38 40 = [0, 0])"
proof -
  let ?d = "doc_abc\<lparr>str_bytes := [[104,101,108,108,111,0]]\<rparr>"
  have d: "?d = set_strings doc_abc [(0, [104,101,108,108,111])]" by (rule set_hello [symmetric])
  have v: "string_literal_data_offset ?d = 32" "packed_size ?d = 6"
    by (simp_all add: doc_abc_def packed_size_def)
  have sz: "packed_size ?d + (4 - (string_literal_data_offset ?d + packed_size ?d) mod 4) mod 4 < 2 ^ 32"
    by (simp add: v)
  from save_alignment [OF parse_ex_abc d sz]
  have "\<exists>d' out. save ?d = Inr (d', out) \<and>
         le_nat (slice out 16 20) = 32 \<and> le_nat (slice out 20 24) = 8 \<and>
         (32 + le_nat (slice out 20 24)) mod 4 = 0 \<and> slice out 38 40 = [0, 0]"
    by (simp add: v Let_def numeral_2_eq_2)
  with parse_ex_abc show ?thesis by blast
qed

section \<open>What save leaves alone\<close>

text \<open>
  C8. \<^verbatim>\<open>save\<close> changes no byte of the buffer outside the descriptor table, the
  string-data region from the string-data offset over the packed size with its padding,
  and the header pair at the bytes 16 to 24; the result is never shorter than the buffer,
  so the bytes left behind a region that became shorter are still there.
\<close>

theorem save_frame:
  assumes "parse f = Inr d0" and "d = set_strings d0 calls"
    and "packed_size d + (4 - (string_literal_data_offset d + packed_size d) mod 4) mod 4 < 2 ^ 32"
  shows "\<exists>d' out. save d = Inr (d', out) \<and> length f \<le> length out \<and>
     (\<forall>j < length f.
        \<not> (string_literal_offset d \<le> j \<and> j < string_literal_offset d + 8 * string_literal_count d) \<and>
        \<not> (string_literal_data_offset d \<le> j \<and>
           j < string_literal_data_offset d + (packed_size d
                 + (4 - (string_literal_data_offset d + packed_size d) mod 4) mod 4)) \<and>
        \<not> (16 \<le> j \<and> j < 24)
        \<longrightarrow> out ! j = f ! j)"
proof -
  let ?sldo = "string_literal_data_offset d" and ?oc = "packed_size d"
  let ?p = "padding_needed ?sldo ?oc"
  from assms(3) have sz: "?oc + ?p < 2 ^ 32" by (simp add: padding_needed_def)
  note ok = save_ok [OF assms(1,2) sz]
  have fr: "save_bytes d ! j = f ! j"
    if "j < length f"
      and "\<not> (string_literal_offset d \<le> j \<and> j < string_literal_offset d + 8 * string_literal_count d)"
      and "\<not> (?sldo \<le> j \<and> j < ?sldo + (?oc + ?p))" and "\<not> (16 \<le> j \<and> j < 24)" for j
  proof -
    have "save_bytes d ! j = file_data d ! j"
      using that ok(3,4) by (intro save_bytes_frame(1) [OF ok(1)]) auto
    then show ?thesis by (simp add: ok(3))
  qed
  have len: "length f \<le> length (save_bytes d)"
  proof -
    have "length (file_data d) \<le> length (overwrite (file_data d) (string_literal_offset d)
        (table_bytes (repack 0 (str_bytes d))))" by (rule length_overwrite_ge)
    also have "\<dots> \<le> length (fst (write_padding (overwrite (file_data d) (string_literal_offset d)
        (table_bytes (repack 0 (str_bytes d)))) ?sldo ?oc))" by (rule length_write_padding_ge)
    also have "\<dots> \<le> length (write_payloads (fst (write_padding (overwrite (file_data d) (string_literal_offset d)
        (table_bytes (repack 0 (str_bytes d)))) ?sldo ?oc)) ?sldo (str_bytes d))"
      by (rule length_write_payloads_ge)
    also have "\<dots> \<le> length (save_bytes d)"
      unfolding save_bytes_def Let_def by (rule length_overwrite_ge)
    finally show ?thesis by (simp add: ok(3))
  qed
  show ?thesis
    using ok(2) len fr by (simp add: padding_needed_def)
qed

theorem save_frame_witness:
  "parse ex_long = Inr doc_long \<and>
   (\<exists>d' out. save (doc_long\<lparr>str_bytes := [[0x61, 0]]\<rparr>) = Inr (d', out) \<and>
      40 \<le> length out \<and> out ! 36 = 0x65 \<and> out ! 39 = 0 \<and> out ! 0 = 0xAF)"
proof -
  let ?d = "doc_long\<lparr>str_bytes := [[0x61, 0]]\<rparr>"
  have d: "?d = set_strings doc_long [(0, [0x61])]" by (rule set_short [symmetric])
  have sz: "packed_size ?d + (4 - (string_literal_data_offset ?d + packed_size ?d) mod 4) mod 4 < 2 ^ 32"
    by (simp add: packed_size_def doc_long_def)
  from save_frame [OF parse_ex_long d sz] obtain d' out where s: "save ?d = Inr (d', out)"
    and l: "length ex_long \<le> length out"
    and fr: "\<forall>j < length ex_long.
        \<not> (string_literal_offset ?d \<le> j \<and> j < string_literal_offset ?d + 8 * string_literal_count ?d) \<and>
        \<not> (string_literal_data_offset ?d \<le> j \<and>
           j < string_literal_data_offset ?d + (packed_size ?d
                 + (4 - (string_literal_data_offset ?d + packed_size ?d) mod 4) mod 4)) \<and>
        \<not> (16 \<le> j \<and> j < 24)
        \<longrightarrow> out ! j = ex_long ! j"
    by blast
  have n: "length ex_long = 40" by (simp add: ex_long_def)
  have v: "string_literal_offset ?d = 24" "string_literal_count ?d = 1"
    "string_literal_data_offset ?d = 32" "packed_size ?d = 2"
    by (simp_all add: doc_long_def packed_size_def)
  have "out ! 36 = ex_long ! 36" using fr [rule_format, of 36] by (simp add: n v)
  moreover have "out ! 39 = ex_long ! 39" using fr [rule_format, of 39] by (simp add: n v)
  moreover have "out ! 0 = ex_long ! 0" using fr [rule_format, of 0] by (simp add: n v)
  ultimately have "out ! 36 = 0x65 \<and> out ! 39 = 0 \<and> out ! 0 = 0xAF"
    by (simp add: ex_long_def)
  with s l n parse_ex_long show ?thesis by auto
qed

section \<open>The bytes of save, slice by slice\<close>

lemma overwrite_same:
  assumes "pos + length bs \<le> length buf" and e: "take (length bs) (drop pos buf) = bs"
  shows "overwrite buf pos bs = buf"
proof -
  have "take (length bs) (drop pos buf) @ drop (length bs) (drop pos buf) = drop pos buf"
    by (rule append_take_drop_id)
  then have 1: "bs @ drop (length bs) (drop pos buf) = drop pos buf" by (simp only: e)
  have 2: "drop (pos + length bs) buf = drop (length bs) (drop pos buf)"
    by (simp add: add.commute)
  show ?thesis
    unfolding overwrite_def slice_assign_def 2 1 by (rule append_take_drop_id)
qed

lemma concat_slice:
  "k < length sb \<Longrightarrow>
   take (length (sb ! k)) (drop (sum_list (map length (take k sb))) (concat sb)) = sb ! k"
proof (induction sb arbitrary: k)
  case Nil
  then show ?case by simp
next
  case (Cons p ps)
  show ?case
  proof (cases k)
    case 0
    then show ?thesis by simp
  next
    case (Suc j)
    with Cons.prems have "j < length ps" by simp
    from Cons.IH [OF this] Suc show ?thesis by simp
  qed
qed

text \<open>The three later writes of save leave alone what lies outside the region and the pair.\<close>

lemma later_writes_slice:
  assumes l8: "length H8 = 8" and sl: "sldo \<le> length fd1" and h: "24 \<le> sldo"
    and a: "a + n \<le> length fd1"
    and r: "a + n \<le> sldo \<or> sldo + (length (concat sb) + padding_needed sldo (length (concat sb))) \<le> a"
    and p: "a + n \<le> 16 \<or> 24 \<le> a"
  shows "take n (drop a (overwrite (write_payloads (fst (write_padding fd1 sldo (length (concat sb)))) sldo sb)
            16 H8)) = take n (drop a fd1)"
    (is "take n (drop a (overwrite ?fd3 16 H8)) = _")
proof -
  let ?oc = "length (concat sb)"
  let ?p = "padding_needed sldo ?oc"
  let ?fd2 = "fst (write_padding fd1 sldo ?oc)"
  have l2: "length fd1 \<le> length ?fd2" by (rule length_write_padding_ge)
  have s2: "sldo \<le> length ?fd2" using sl l2 by simp
  have fd3: "?fd3 = overwrite ?fd2 sldo (concat sb)"
    using s2 by (rule write_payloads_overwrite)
  have l3: "length ?fd2 \<le> length ?fd3" by (rule length_write_payloads_ge)
  have "16 \<le> length ?fd3" using h s2 l3 by simp
  then have "take n (drop a (overwrite ?fd3 16 H8)) = take n (drop a ?fd3)"
    using p l8 by (intro slice_overwrite_out) auto
  also have "\<dots> = take n (drop a ?fd2)"
    unfolding fd3 using s2 r by (intro slice_overwrite_out) auto
  also have "\<dots> = take n (drop a fd1)"
  proof (cases "?p = 0")
    case True
    then show ?thesis by (simp add: write_padding_eq)
  next
    case False
    let ?e = "fd1 @ replicate (sldo + ?oc + ?p - length fd1) 0"
    have "take n (drop a (overwrite ?e (sldo + ?oc) (replicate ?p 0))) = take n (drop a ?e)"
      using r by (intro slice_overwrite_out) auto
    also have "\<dots> = take n (drop a fd1)" using a by simp
    finally show ?thesis using False by (simp add: write_padding_eq)
  qed
  finally show ?thesis .
qed

lemma repack_small:
  assumes "sum_list (map length sb) < 2 ^ 32" and i: "i < length sb"
  shows "length_lit (repack 0 sb ! i) < 2 ^ 32 \<and> offset_lit (repack 0 sb ! i) < 2 ^ 32"
    and "offset_lit (repack 0 sb ! i) + length_lit (repack 0 sb ! i) \<le> sum_list (map length sb)"
proof -
  have "sum_list (map length (take (Suc i) sb)) \<le> sum_list (map length (take (length sb) sb))"
    using i by (intro sum_take_mono) simp
  then have le: "sum_list (map length (take i sb)) + length (sb ! i) \<le> sum_list (map length sb)"
    using sum_take_Suc [OF i] by simp
  with assms(1) show "length_lit (repack 0 sb ! i) < 2 ^ 32 \<and> offset_lit (repack 0 sb ! i) < 2 ^ 32"
    by (simp add: repack_nth [OF i])
  from le show "offset_lit (repack 0 sb ! i) + length_lit (repack 0 sb ! i) \<le> sum_list (map length sb)"
    by (simp add: repack_nth [OF i])
qed

lemma take4_of_take16:
  "k + 4 \<le> 16 \<Longrightarrow> take 4 (drop k g) = take 4 (drop k (take 16 g))"
  by (simp add: drop_take)

lemma parse_header_eq:
  assumes g: "24 \<le> length g" and e: "take 16 g = take 16 f" and h: "parse_header f = Inr h"
  shows "parse_header g =
           Inr (h\<lparr>h_string_literal_data_offset := le_nat (take 4 (drop 16 g)),
                  h_string_literal_data_count := le_nat (take 4 (drop 20 g))\<rparr>)"
proof -
  have s: "take 4 (drop k g) = take 4 (drop k f)" if "k + 4 \<le> 16" for k
    using take4_of_take16 [OF that, of g] take4_of_take16 [OF that, of f] e by simp
  have s0: "take 4 g = take 4 f" using s [of 0] by simp
  from parse_header_Inr [OF h] have f: "24 \<le> length f" by simp
  from h g f show ?thesis
    by (auto simp: parse_header_def bind_err_def unpack_from_I_def unpack_from_i_def Let_def
          s [of 4] s [of 8] s [of 12] s0 split: if_splits)
qed

lemma length_save_bytes_ge: "length (file_data d) \<le> length (save_bytes d)"
proof -
  let ?fd1 = "overwrite (file_data d) (string_literal_offset d) (table_bytes (repack 0 (str_bytes d)))"
  let ?fd2 = "fst (write_padding ?fd1 (string_literal_data_offset d) (packed_size d))"
  let ?fd3 = "write_payloads ?fd2 (string_literal_data_offset d) (str_bytes d)"
  have "length (file_data d) \<le> length ?fd1" by (rule length_overwrite_ge)
  also have "\<dots> \<le> length ?fd2" by (rule length_write_padding_ge)
  also have "\<dots> \<le> length ?fd3" by (rule length_write_payloads_ge)
  also have "\<dots> \<le> length (save_bytes d)"
    unfolding save_bytes_def Let_def by (rule length_overwrite_ge)
  finally show ?thesis .
qed

lemma save_bytes_reload:
  assumes inv: "doc_inv d"
    and sz: "packed_size d + padding_needed (string_literal_data_offset d) (packed_size d) < 2 ^ 32"
    and hd: "parse_header (file_data d) = Inr h"
    and hslo: "h_string_literal_offset h = string_literal_offset d"
    and hcnt: "h_string_literal_table_size h div 8 = length (str_bytes d)"
    and L1: "24 \<le> string_literal_offset d"
    and L2: "24 \<le> string_literal_data_offset d"
    and L3: "string_literal_data_offset d \<le> length (file_data d)"
    and L4: "string_literal_offset d + 8 * length (str_bytes d) \<le> string_literal_data_offset d \<or>
             string_literal_data_offset d + (packed_size d
               + padding_needed (string_literal_data_offset d) (packed_size d))
             \<le> string_literal_offset d"
  shows "parse (save_bytes d) = Inr (reloaded d (h_version h))"
proof -
  let ?f = "file_data d" and ?sb = "str_bytes d" and ?sldo = "string_literal_data_offset d"
  let ?slo = "string_literal_offset d" and ?n = "length (str_bytes d)"
  let ?oc = "packed_size d"
  let ?p = "padding_needed ?sldo ?oc"
  let ?T = "table_bytes (repack 0 ?sb)"
  let ?fd1 = "overwrite ?f ?slo ?T"
  let ?fd2 = "fst (write_padding ?fd1 ?sldo ?oc)"
  let ?fd3 = "write_payloads ?fd2 ?sldo ?sb"
  let ?H = "le_bytes 4 ?sldo @ le_bytes 4 (?oc + ?p)"
  let ?out = "save_bytes d"
  have oc: "?oc = length (concat ?sb)" by (simp add: packed_size_def length_concat_sum)
  have out: "?out = overwrite (write_payloads (fst (write_padding ?fd1 ?sldo (length (concat ?sb))))
      ?sldo ?sb) 16 ?H"
    by (simp add: save_bytes_def Let_def oc)
  from inv have l24: "24 \<le> length ?f"
    and tb: "?sb = [] \<or> ?slo + 8 * ?n \<le> length ?f"
    by (auto simp: doc_inv_def)
  have l1: "length ?fd1 = length ?f"
  proof (cases "?sb = []")
    case True
    then show ?thesis by (simp add: table_bytes_def)
  next
    case False
    with tb show ?thesis by simp
  qed
  have lH: "length ?H = 8" by simp
  have sl1: "?sldo \<le> length ?fd1" using L3 l1 by simp
  \<comment> \<open>a slice away from the region and the pair is as the first loop left it\<close>
  have later: "take m (drop a ?out) = take m (drop a ?fd1)"
    if "a + m \<le> length ?f" and "a + m \<le> ?sldo \<or> ?sldo + (?oc + ?p) \<le> a"
      and "a + m \<le> 16 \<or> 24 \<le> a" for a m
    unfolding out
    using that l1 by (intro later_writes_slice [OF lH sl1 L2]) (simp_all add: oc)
  \<comment> \<open>the first 16 bytes\<close>
  have "take 16 (drop 0 ?out) = take 16 (drop 0 ?fd1)"
    using l24 L2 by (intro later) simp_all
  also have "\<dots> = take 16 (drop 0 ?f)"
  proof (cases "?sb = []")
    case True
    then show ?thesis by (simp add: table_bytes_def)
  next
    case False
    with tb have "?slo \<le> length ?f" by simp
    then show ?thesis using L1 by (intro slice_overwrite_out) simp_all
  qed
  finally have t16: "take 16 ?out = take 16 ?f" by simp
  have lout: "length ?f \<le> length ?out" by (rule length_save_bytes_ge)
  note hdr = save_bytes_header [OF inv sz]
  have ph: "parse_header ?out =
      Inr (h\<lparr>h_string_literal_data_offset := ?sldo, h_string_literal_data_count := ?oc + ?p\<rparr>)"
    using parse_header_eq [OF _ t16 hd] lout l24 hdr by (simp add: slice_def)
  \<comment> \<open>the descriptors\<close>
  have small: "length_lit (repack 0 ?sb ! k) < 2 ^ 32 \<and> offset_lit (repack 0 ?sb ! k) < 2 ^ 32"
    and inside: "offset_lit (repack 0 ?sb ! k) + length_lit (repack 0 ?sb ! k) \<le> ?oc"
    if "k < ?n" for k
    using repack_small [OF _ that] sz by (simp_all add: packed_size_def)
  have lit: "lit_at ?out (?slo + k * 8) = repack 0 ?sb ! k" if k: "k < ?n" for k
  proof -
    from k tb have b: "?slo + 8 * ?n \<le> length ?f" by auto
    have 1: "take 4 (drop (?slo + k * 8) ?out) = take 4 (drop (?slo + k * 8) ?fd1)"
      using k b L1 L4 by (intro later) auto
    have 2: "take 4 (drop (?slo + k * 8 + 4) ?out) = take 4 (drop (?slo + k * 8 + 4) ?fd1)"
      using k b L1 L4 by (intro later) auto
    have "lit_at ?out (?slo + k * 8) = lit_at ?fd1 (?slo + k * 8)"
      by (simp add: lit_at_def 1 2)
    also have "\<dots> = repack 0 ?sb ! k"
      using b k small [OF k] by (intro lit_at_table) auto
    finally show ?thesis .
  qed
  \<comment> \<open>the payloads\<close>
  have s2: "?sldo \<le> length ?fd2"
    using sl1 length_write_padding_ge [of ?fd1 ?sldo ?oc] by simp
  have fd3: "?fd3 = overwrite ?fd2 ?sldo (concat ?sb)"
    using s2 by (rule write_payloads_overwrite)
  have l3: "16 \<le> length ?fd3"
    using s2 L2 length_write_payloads_ge [of ?fd2 ?sldo ?sb] by simp
  have pay: "payload_at ?out ?sldo (repack 0 ?sb ! k) = ?sb ! k" if k: "k < ?n" for k
  proof -
    let ?off = "sum_list (map length (take k ?sb))" and ?len = "length (?sb ! k)"
    have r: "repack 0 ?sb ! k = \<lparr>length_lit = ?len, offset_lit = ?off\<rparr>"
      using repack_nth [OF k, of 0] by simp
    from inside [OF k] have i: "?off + ?len \<le> length (concat ?sb)" by (simp add: r oc)
    have "take ?len (drop (?sldo + ?off) ?out) = take ?len (drop (?sldo + ?off) ?fd3)"
      unfolding save_bytes_def Let_def using l3 L2 by (intro slice_overwrite_out) auto
    also have "\<dots> = take ?len (drop ?off (concat ?sb))"
      unfolding fd3 using s2 i by (rule slice_overwrite_in)
    also have "\<dots> = ?sb ! k" using k by (rule concat_slice)
    finally show ?thesis by (simp add: payload_at_def slice_def r)
  qed
  have lits: "map (\<lambda>k. lit_at ?out (?slo + k * 8)) [0..<?n] = repack 0 ?sb"
    by (rule nth_equalityI) (simp_all add: lit)
  have pays: "map (\<lambda>k. payload_at ?out ?sldo (lit_at ?out (?slo + k * 8))) [0..<?n] = ?sb"
    by (rule nth_equalityI) (simp_all add: lit pay)
  have tbo: "?n = 0 \<or> ?slo + ?n * 8 \<le> length ?out"
    using tb lout by auto
  show ?thesis
    unfolding parse_Inr_iff reloaded_def
    using ph hslo hcnt tbo lits pays by (simp add: Let_def)
qed

lemma replicate_numeral_Cons: "replicate (numeral k) x = x # replicate (pred_numeral k) x"
  by (simp only: numeral_eq_Suc replicate.simps)

lemmas save_simps = save_def pack_into_II_def le_bytes4 write_padding_def slice_assign_def Let_def
  replicate_numeral_Cons

lemma parse_ex_alias: "parse ex_alias = Inr doc_alias"
  by (simp add: parse_simps ex_alias_def doc_alias_def)

lemma save_doc_alias:
  "save doc_alias = Inr (doc_alias\<lparr>string_literals :=
       [\<lparr>length_lit = 4, offset_lit = 0\<rparr>, \<lparr>length_lit = 4, offset_lit = 4\<rparr>],
     file_data := out_alias\<rparr>, out_alias)"
  by (simp add: save_simps doc_alias_def ex_alias_def out_alias_def)

lemma parse_out_alias:
  "parse out_alias = Inr \<lparr>version = 1, string_literal_offset = 28, string_literal_count = 2,
     data_info_position = 16, string_literal_data_offset = 24, string_literal_data_count = 8,
     string_literals = [\<lparr>length_lit = 6513249, offset_lit = 0\<rparr>, \<lparr>length_lit = 4, offset_lit = 4\<rparr>],
     str_bytes = [[0x61,0x62,0x63,0, 0x61,0x62,0x63,0, 0,0,0,0, 4,0,0,0, 4,0,0,0], [0x61,0x62,0x63,0]],
     file_data = out_alias\<rparr>"
  by (simp add: parse_simps out_alias_def)

lemma parse_ex_share: "parse ex_share = Inr doc_share"
  by (simp add: parse_simps ex_share_def doc_share_def)

lemma save_doc_share:
  "save doc_share = Inr (doc_share\<lparr>string_literals :=
       [\<lparr>length_lit = 3, offset_lit = 0\<rparr>, \<lparr>length_lit = 2, offset_lit = 3\<rparr>],
     file_data := out_share\<rparr>, out_share)"
  by (simp add: save_simps doc_share_def ex_share_def out_share_def)

lemma parse_out_share: "parse out_share = Inr doc_share2"
  by (simp add: parse_simps out_share_def doc_share2_def)

lemma save_doc_share2:
  "save doc_share2 = Inr (doc_share2\<lparr>string_literals :=
       [\<lparr>length_lit = 0, offset_lit = 0\<rparr>, \<lparr>length_lit = 2, offset_lit = 0\<rparr>],
     file_data := out_share2\<rparr>, out_share2)"
  by (simp add: save_simps doc_share2_def out_share_def out_share2_def)

lemma parsed_header:
  assumes "parse f = Inr d0" and "d = set_strings d0 calls"
  shows "\<exists>h. parse_header (file_data d) = Inr h \<and>
           h_string_literal_offset h = string_literal_offset d \<and>
           h_string_literal_table_size h div 8 = length (str_bytes d)"
proof -
  from assms(1) obtain h where a: "parse_header f = Inr h"
    and b: "string_literal_offset d0 = h_string_literal_offset h"
    and c: "length (str_bytes d0) = h_string_literal_table_size h div 8"
    and e: "file_data d0 = f"
    by (auto simp: parse_Inr_iff Let_def)
  from set_strings_fixed [of d0 calls] assms(2)
  have 1: "file_data d = file_data d0" and 2: "string_literal_offset d = string_literal_offset d0"
    and 3: "length (str_bytes d) = length (str_bytes d0)"
    by simp_all
  have "parse_header (file_data d) = Inr h \<and>
           h_string_literal_offset h = string_literal_offset d \<and>
           h_string_literal_table_size h div 8 = length (str_bytes d)"
    unfolding 1 2 3 e b c using a by simp
  then show ?thesis ..
qed

lemma get_strings_reloaded: "get_strings (reloaded d v) = get_strings d"
  by (simp add: get_strings_def reloaded_def)

lemma slice_cong:
  assumes "a + n \<le> length X" and "a + n \<le> length Y"
    and "\<And>j. a \<le> j \<Longrightarrow> j < a + n \<Longrightarrow> X ! j = Y ! j"
  shows "take n (drop a X) = take n (drop a Y)"
proof (rule nth_equalityI)
  show "length (take n (drop a X)) = length (take n (drop a Y))" using assms(1,2) by simp
next
  fix i assume "i < length (take n (drop a X))"
  then have i: "i < n" by simp
  from assms(3) [of "a + i"] i assms(1,2)
  show "take n (drop a X) ! i = take n (drop a Y) ! i" by simp
qed

text \<open>The descriptor table in the bytes of save, where the later writes stay away from it.\<close>

lemma save_bytes_table:
  assumes inv: "doc_inv d"
    and sz: "packed_size d + padding_needed (string_literal_data_offset d) (packed_size d) < 2 ^ 32"
    and T1: "string_literal_offset d + 8 * length (str_bytes d) \<le> 16 \<or> 24 \<le> string_literal_offset d"
    and T2: "string_literal_offset d + 8 * length (str_bytes d) \<le> string_literal_data_offset d \<or>
             string_literal_data_offset d + (packed_size d
               + padding_needed (string_literal_data_offset d) (packed_size d))
             \<le> string_literal_offset d"
    and k: "k < length (str_bytes d)"
  shows "lit_at (save_bytes d) (string_literal_offset d + k * 8) = repack 0 (str_bytes d) ! k"
proof -
  let ?f = "file_data d" and ?sb = "str_bytes d" and ?sldo = "string_literal_data_offset d"
  let ?slo = "string_literal_offset d" and ?n = "length (str_bytes d)"
  let ?oc = "packed_size d"
  let ?p = "padding_needed ?sldo ?oc"
  let ?T = "table_bytes (repack 0 ?sb)"
  let ?fd1 = "overwrite ?f ?slo ?T"
  let ?fd2 = "fst (write_padding ?fd1 ?sldo ?oc)"
  let ?fd3 = "write_payloads ?fd2 ?sldo ?sb"
  let ?H = "le_bytes 4 ?sldo @ le_bytes 4 (?oc + ?p)"
  let ?out = "save_bytes d"
  from inv k have b: "?slo + 8 * ?n \<le> length ?f" by (auto simp: doc_inv_def)
  have l1: "length ?fd1 = length ?f" using b by simp
  have l2: "length ?fd1 \<le> length ?fd2" by (rule length_write_padding_ge)
  have l3: "length ?fd2 \<le> length ?fd3" by (rule length_write_payloads_ge)
  have l4: "length ?fd3 \<le> length ?out"
    unfolding save_bytes_def Let_def by (rule length_overwrite_ge)
  have fr: "?out ! j = ?fd1 ! j" if j: "?slo \<le> j" "j < ?slo + 8 * ?n" for j
  proof -
    from j b have jf: "j < length ?f" by simp
    have "overwrite ?fd3 16 ?H ! j = ?fd3 ! j"
      using jf l1 l2 l3 j T1 by (intro nth_overwrite_frame) auto
    also have "\<dots> = ?fd2 ! j"
      using jf l1 l2 j T2
      by (intro nth_write_payloads_frame) (auto simp: length_concat_sum packed_size_def)
    also have "\<dots> = ?fd1 ! j"
      using jf l1 j T2 by (intro nth_write_padding_frame) auto
    finally show ?thesis by (simp add: save_bytes_def Let_def)
  qed
  have lo: "?slo + k * 8 + 8 \<le> length ?fd1" "?slo + k * 8 + 8 \<le> length ?out"
    using k b l1 l2 l3 l4 by simp_all
  have 1: "take 4 (drop (?slo + k * 8) ?out) = take 4 (drop (?slo + k * 8) ?fd1)"
    using lo k by (intro slice_cong fr) simp_all
  have 2: "take 4 (drop (?slo + k * 8 + 4) ?out) = take 4 (drop (?slo + k * 8 + 4) ?fd1)"
    using lo k by (intro slice_cong fr) simp_all
  have "lit_at ?out (?slo + k * 8) = lit_at ?fd1 (?slo + k * 8)"
    by (simp add: lit_at_def 1 2)
  also have "\<dots> = repack 0 ?sb ! k"
  proof (rule lit_at_table)
    show "?slo \<le> length ?f" using b by simp
    show "k < length (repack 0 ?sb)" using k by simp
    show "length_lit (repack 0 ?sb ! k) < 2 ^ 32" "offset_lit (repack 0 ?sb ! k) < 2 ^ 32"
      using repack_small(1) [OF _ k] sz by (simp_all add: packed_size_def)
  qed
  finally show ?thesis .
qed

lemma save_bytes_rewrite:
  "save_bytes d = rewrite (file_data d) (string_literal_offset d) (string_literal_data_offset d)
     (str_bytes d)"
  by (simp add: save_bytes_def rewrite_def Let_def packed_size_def)

lemma length_write_padding:
  "length (fst (write_padding fd sldo oc)) =
     (if padding_needed sldo oc = 0 then length fd
      else max (length fd) (sldo + oc + padding_needed sldo oc))"
  by (auto simp: write_padding_eq length_overwrite)

lemma rewrite_nth:
  assumes l24: "24 \<le> length b" and sl: "sldo \<le> length b"
    and tb: "sb = [] \<or> slo + 8 * length sb \<le> length b"
  defines "oc \<equiv> sum_list (map length sb)"
  defines "p \<equiv> padding_needed sldo oc"
  shows "length (rewrite b slo sldo sb) = max (length b) (sldo + oc + p)"
    and "j < max (length b) (sldo + oc + p) \<Longrightarrow>
         rewrite b slo sldo sb ! j =
           (if 16 \<le> j \<and> j < 24 then (le_bytes 4 sldo @ le_bytes 4 (oc + p)) ! (j - 16)
            else if sldo \<le> j \<and> j < sldo + oc then concat sb ! (j - sldo)
            else if sldo + oc \<le> j \<and> j < sldo + oc + p then 0
            else if slo \<le> j \<and> j < slo + 8 * length sb then table_bytes (repack 0 sb) ! (j - slo)
            else b ! j)"
proof -
  let ?T = "table_bytes (repack 0 sb)"
  let ?H = "le_bytes 4 sldo @ le_bytes 4 (oc + p)"
  let ?fd1 = "overwrite b slo ?T"
  let ?fd2 = "fst (write_padding ?fd1 sldo oc)"
  let ?fd3 = "write_payloads ?fd2 sldo sb"
  have r: "rewrite b slo sldo sb = overwrite ?fd3 16 ?H"
    by (simp add: rewrite_def Let_def oc_def p_def)
  have c: "length (concat sb) = oc" by (simp add: oc_def length_concat_sum)
  have l1: "length ?fd1 = length b"
  proof (cases "sb = []")
    case True
    then show ?thesis by (simp add: table_bytes_def)
  next
    case False
    with tb show ?thesis by simp
  qed
  have l2: "length ?fd2 = (if p = 0 then length b else max (length b) (sldo + oc + p))"
    unfolding length_write_padding l1 p_def by simp
  have s2: "sldo \<le> length ?fd2" using sl l2 by (simp split: if_splits)
  have fd3: "?fd3 = overwrite ?fd2 sldo (concat sb)"
    using s2 by (rule write_payloads_overwrite)
  have l3: "length ?fd3 = max (length b) (sldo + oc + p)"
    unfolding fd3 using sl l2 by (auto simp: length_overwrite c)
  have l3': "24 \<le> length ?fd3" using l24 l3 by simp
  show len: "length (rewrite b slo sldo sb) = max (length b) (sldo + oc + p)"
    unfolding r using l3 l3' by simp
  assume j: "j < max (length b) (sldo + oc + p)"
  have n1: "?fd1 ! i = (if slo \<le> i \<and> i < slo + 8 * length sb then ?T ! (i - slo) else b ! i)"
    if "i < length b" for i
  proof (cases "sb = []")
    case True
    then show ?thesis by (auto simp: table_bytes_def)
  next
    case False
    with tb have "slo \<le> length b" by simp
    then show ?thesis using that by (simp add: nth_overwrite)
  qed
  have n2: "?fd2 ! i = (if sldo + oc \<le> i \<and> i < sldo + oc + p then 0 else ?fd1 ! i)"
    if "i < length b \<or> (sldo + oc \<le> i \<and> i < sldo + oc + p)" for i
  proof (cases "sldo + oc \<le> i \<and> i < sldo + oc + p")
    case True
    then show ?thesis using nth_write_padding_zero [of sldo oc i ?fd1] by (simp add: p_def)
  next
    case False
    with that have "i < length ?fd1" by (simp add: l1)
    then have "?fd2 ! i = ?fd1 ! i"
      using False by (intro nth_write_padding_frame) (auto simp: p_def)
    with False show ?thesis by auto
  qed
  have n3: "?fd3 ! j = (if sldo \<le> j \<and> j < sldo + oc then concat sb ! (j - sldo) else ?fd2 ! j)"
    unfolding fd3 using s2 j l3 [unfolded fd3] by (simp add: nth_overwrite c length_overwrite)
  have n4: "overwrite ?fd3 16 ?H ! j = (if 16 \<le> j \<and> j < 24 then ?H ! (j - 16) else ?fd3 ! j)"
    using l3' j l3 by (simp add: nth_overwrite)
  have out: "\<not> (sldo \<le> j \<and> j < sldo + oc) \<Longrightarrow> \<not> (sldo + oc \<le> j \<and> j < sldo + oc + p)
      \<Longrightarrow> j < length b"
    using j sl by auto
  show "rewrite b slo sldo sb ! j =
           (if 16 \<le> j \<and> j < 24 then ?H ! (j - 16)
            else if sldo \<le> j \<and> j < sldo + oc then concat sb ! (j - sldo)
            else if sldo + oc \<le> j \<and> j < sldo + oc + p then 0
            else if slo \<le> j \<and> j < slo + 8 * length sb then ?T ! (j - slo)
            else b ! j)"
    unfolding r n4 n3 using n2 [of j] n1 [of j] out by auto
qed

lemma rewrite_again:
  assumes l24: "24 \<le> length b" and sl: "sldo \<le> length b"
    and tb: "sb = [] \<or> slo + 8 * length sb \<le> length b"
  shows "rewrite (rewrite b slo sldo sb) slo sldo sb = rewrite b slo sldo sb"
proof -
  let ?oc = "sum_list (map length sb)"
  let ?p = "padding_needed sldo ?oc"
  let ?r = "rewrite b slo sldo sb"
  let ?L = "max (length b) (sldo + ?oc + ?p)"
  have L: "length ?r = ?L" using rewrite_nth(1) [OF assms] .
  have l24': "24 \<le> length ?r" and sl': "sldo \<le> length ?r"
    and tb': "sb = [] \<or> slo + 8 * length sb \<le> length ?r"
    using l24 sl tb L by auto
  have L2: "length (rewrite ?r slo sldo sb) = ?L"
    using rewrite_nth(1) [OF l24' sl' tb'] L by simp
  show ?thesis
  proof (rule nth_equalityI)
    show "length (rewrite ?r slo sldo sb) = length ?r" using L L2 by simp
  next
    fix j assume "j < length (rewrite ?r slo sldo sb)"
    then have j: "j < ?L" by (simp add: L2)
    then have j': "j < max (length ?r) (sldo + ?oc + ?p)" by (simp add: L)
    show "rewrite ?r slo sldo sb ! j = ?r ! j"
      unfolding rewrite_nth(2) [OF l24' sl' tb' j']
      unfolding rewrite_nth(2) [OF l24 sl tb j] by simp
  qed
qed

lemma parse_ex_beyond: "parse ex_beyond = Inr doc_beyond"
  by (simp add: parse_simps ex_beyond_def doc_beyond_def)

lemma set_beyond:
  "set_string doc_beyond 0 [0x61, 0x62, 0x63] = Inr (doc_beyond\<lparr>str_bytes := [[0x61, 0x62, 0x63, 0]]\<rparr>)"
  by (simp add: set_string_def encode_cp_def doc_beyond_def)

lemma save_beyond:
  "save (doc_beyond\<lparr>str_bytes := [[0x61, 0x62, 0x63, 0]]\<rparr>) = Inr (doc_beyond_saved, out_beyond)"
  by (simp add: save_simps doc_beyond_def doc_beyond_saved_def ex_beyond_def out_beyond_def)

lemma save_beyond_saved:
  "save doc_beyond_saved = Inr (doc_beyond_saved\<lparr>file_data := out_beyond @ [0x61, 0x62, 0x63, 0]\<rparr>,
     out_beyond @ [0x61, 0x62, 0x63, 0])"
  by (simp add: save_simps doc_beyond_saved_def out_beyond_def)

lemma lit_at_out_alias: "lit_at out_alias 28 = \<lparr>length_lit = 6513249, offset_lit = 0\<rparr>"
  by (simp add: lit_at_def out_alias_def)

section \<open>The descriptor table in the bytes of save\<close>

text \<open>
  C1, as the specification has it, fails on the bytes returned: \<open>ex_alias\<close> is
  accepted by \<^verbatim>\<open>parse\<close>, its first payload has 4 bytes and \<^verbatim>\<open>save\<close> sets the first
  descriptor of the object to length 4 and offset 0; but the second payload is written
  over the table, and the descriptor at byte 28 of the bytes returned has the length
  \<open>0x636261\<close>.
\<close>

theorem save_descriptors_counterexample:
  "parse ex_alias = Inr doc_alias \<and> length (str_bytes doc_alias ! 0) = 4 \<and>
   string_literal_offset doc_alias = 28 \<and>
   (\<exists>d'. save doc_alias = Inr (d', out_alias) \<and>
      string_literals d' ! 0 = \<lparr>length_lit = 4, offset_lit = 0\<rparr>) \<and>
   lit_at out_alias 28 = \<lparr>length_lit = 6513249, offset_lit = 0\<rparr>"
  by (simp add: parse_ex_alias save_doc_alias lit_at_out_alias) (simp add: doc_alias_def)

text \<open>
  C1, amended. After \<^verbatim>\<open>save\<close> on a loaded object (edited or not, padded size within
  32 bits), descriptor \<open>i\<close> of the object has as its offset the sum of the lengths of
  the payloads before \<open>i\<close> and as its length the length of payload \<open>i\<close>; the header
  pair at byte 16 of the bytes returned is the string-data offset and the packed size
  with its padding; the spans of the descriptors do not overlap; and when the descriptor
  table meets neither the header pair (bytes 16 to 24) nor the repacked and padded
  string data, the descriptor at \<open>descriptor_table_offset + 8 * i\<close> of the bytes
  returned is that descriptor.
\<close>

theorem save_descriptors:
  assumes "parse f = Inr d0" and "d = set_strings d0 calls"
    and "packed_size d + (4 - (string_literal_data_offset d + packed_size d) mod 4) mod 4 < 2 ^ 32"
  shows "\<exists>d' out.
     save d = Inr (d', out) \<and> file_data d' = out \<and> str_bytes d' = str_bytes d \<and>
     length (string_literals d') = string_literal_count d \<and>
     (\<forall>i < string_literal_count d.
        string_literals d' ! i =
          \<lparr>length_lit = length (str_bytes d ! i),
           offset_lit = sum_list (map length (take i (str_bytes d)))\<rparr>) \<and>
     le_nat (slice out 16 20) = string_literal_data_offset d \<and>
     le_nat (slice out 20 24) =
       packed_size d + (4 - (string_literal_data_offset d + packed_size d) mod 4) mod 4 \<and>
     (\<forall>i j. i < j \<and> j < string_literal_count d \<longrightarrow>
        string_literal_data_offset d + offset_lit (string_literals d' ! i)
          + length_lit (string_literals d' ! i)
          \<le> string_literal_data_offset d + offset_lit (string_literals d' ! j)) \<and>
     ((string_literal_offset d + 8 * string_literal_count d \<le> 16 \<or> 24 \<le> string_literal_offset d) \<and>
      (string_literal_offset d + 8 * string_literal_count d \<le> string_literal_data_offset d \<or>
       string_literal_data_offset d
         + (packed_size d + (4 - (string_literal_data_offset d + packed_size d) mod 4) mod 4)
       \<le> string_literal_offset d)
      \<longrightarrow> (\<forall>i < string_literal_count d.
             lit_at out (string_literal_offset d + i * 8) = string_literals d' ! i))"
proof -
  let ?sb = "str_bytes d" and ?sldo = "string_literal_data_offset d"
  let ?slo = "string_literal_offset d"
  let ?lits = "repack 0 ?sb"
  let ?oc2 = "packed_size d + padding_needed ?sldo (packed_size d)"
  from assms(3) have sz: "?oc2 < 2 ^ 32" by (simp add: padding_needed_def)
  note ok = save_ok [OF assms(1,2) sz]
  have nth: "?lits ! i = \<lparr>length_lit = length (?sb ! i),
                    offset_lit = sum_list (map length (take i ?sb))\<rparr>" if "i < length ?sb" for i
    using repack_nth [OF that, of 0] by simp
  note hd = save_bytes_header [OF ok(1) sz]
  have dis: "?sldo + offset_lit (?lits ! i) + length_lit (?lits ! i) \<le> ?sldo + offset_lit (?lits ! j)"
    if "i < j" and "j < length ?sb" for i j
  proof -
    from that have i: "i < length ?sb" by simp
    have "sum_list (map length (take (Suc i) ?sb)) \<le> sum_list (map length (take j ?sb))"
      using that(1) by (intro sum_take_mono) simp
    then show ?thesis
      using sum_take_Suc [OF i] by (simp add: nth [OF i] nth [OF that(2)])
  qed
  have tab: "lit_at (save_bytes d) (?slo + i * 8) = ?lits ! i"
    if "?slo + 8 * length ?sb \<le> 16 \<or> 24 \<le> ?slo"
      and "?slo + 8 * length ?sb \<le> ?sldo \<or> ?sldo + ?oc2 \<le> ?slo"
      and "i < length ?sb" for i
    using ok(1) sz that by (rule save_bytes_table)
  show ?thesis
    using ok(2) ok(4) nth hd dis tab
    by (simp add: padding_needed_def)
qed

theorem save_descriptors_witness:
  "parse ex_two = Inr doc_two \<and>
   (\<exists>d' out. save (doc_two\<lparr>str_bytes := [[104,101,108,108,111,0], [0x62, 0]]\<rparr>) = Inr (d', out) \<and>
      string_literals d' ! 1 = \<lparr>length_lit = 2, offset_lit = 6\<rparr> \<and>
      lit_at out 24 = string_literals d' ! 0 \<and> lit_at out 32 = \<lparr>length_lit = 2, offset_lit = 6\<rparr> \<and>
      le_nat (slice out 16 20) = 40 \<and> le_nat (slice out 20 24) = 8)"
proof -
  let ?d = "doc_two\<lparr>str_bytes := [[104,101,108,108,111,0], [0x62, 0]]\<rparr>"
  have d: "?d = set_strings doc_two [(0, [104,101,108,108,111])]"
    by (simp add: set_string_def encode_cp_def doc_two_def)
  have v: "string_literal_data_offset ?d = 40" "packed_size ?d = 8"
    "string_literal_count ?d = 2" "string_literal_offset ?d = 24"
    by (simp_all add: doc_two_def packed_size_def)
  have sz: "packed_size ?d + (4 - (string_literal_data_offset ?d + packed_size ?d) mod 4) mod 4 < 2 ^ 32"
    by (simp add: v)
  from save_descriptors [OF parse_ex_two d sz] obtain d' out where
    1: "save ?d = Inr (d', out)"
    and 2: "\<forall>i < 2. string_literals d' ! i = \<lparr>length_lit = length (str_bytes ?d ! i),
                    offset_lit = sum_list (map length (take i (str_bytes ?d)))\<rparr>"
    and 3: "le_nat (slice out 16 20) = 40" "le_nat (slice out 20 24) = 8"
    and 4: "\<forall>i < 2. lit_at out (24 + i * 8) = string_literals d' ! i"
    by (auto simp: v)
  from 2 [rule_format, of 1] have a: "string_literals d' ! 1 = \<lparr>length_lit = 2, offset_lit = 6\<rparr>"
    by (simp add: doc_two_def)
  from 4 [rule_format, of 0] have b: "lit_at out 24 = string_literals d' ! 0" by simp
  from 4 [rule_format, of 1] a have c: "lit_at out 32 = \<lparr>length_lit = 2, offset_lit = 6\<rparr>" by simp
  from 1 a b c 3 parse_ex_two show ?thesis by blast
qed

section \<open>Reading back what save wrote\<close>

text \<open>
  C2, as the specification has it, fails: \<open>ex_alias\<close> is accepted by \<^verbatim>\<open>parse\<close> with
  the strings \<^verbatim>\<open>abc\<close> and \<^verbatim>\<open>abc\<close>. \<^verbatim>\<open>save\<close> lays the two payloads end to end from
  byte 24, the second one over the first descriptor of the table at byte 28; read back,
  that descriptor has the length \<open>0x636261\<close>, and the first string is no longer
  \<^verbatim>\<open>abc\<close>.
\<close>

theorem save_parse_roundtrip_counterexample:
  "parse ex_alias = Inr doc_alias \<and>
   get_strings doc_alias = [[0x61, 0x62, 0x63], [0x61, 0x62, 0x63]] \<and>
   (\<exists>d'. save doc_alias = Inr (d', out_alias)) \<and>
   (\<exists>d2. parse out_alias = Inr d2 \<and>
      get_strings d2 = [[0x61,0x62,0x63,0, 0x61,0x62,0x63,0, 0,0,0,0, 4,0,0,0, 4], [0x61, 0x62, 0x63]])"
  by (simp add: parse_ex_alias save_doc_alias parse_out_alias)
     (simp add: get_strings_def decode_text_def rstrip_def doc_alias_def)

text \<open>
  C2, amended. For an object that \<^verbatim>\<open>parse\<close> returned and \<^verbatim>\<open>set_string\<close> calls have
  edited, whose descriptor table and string data both start at byte 24 or later, whose
  string data starts inside the buffer, whose descriptor table lies wholly before the
  string data or wholly after the repacked and padded string data, and whose padded
  size fits 32 bits: \<^verbatim>\<open>save\<close> returns, \<^verbatim>\<open>parse\<close> accepts its bytes, and the object
  read back has the same payloads, so the same decoded strings at every index.
\<close>

theorem save_parse_roundtrip:
  assumes "parse f = Inr d0" and "d = set_strings d0 calls"
    and "packed_size d + (4 - (string_literal_data_offset d + packed_size d) mod 4) mod 4 < 2 ^ 32"
    and "24 \<le> string_literal_offset d"
    and "24 \<le> string_literal_data_offset d"
    and "string_literal_data_offset d \<le> length f"
    and "string_literal_offset d + 8 * string_literal_count d \<le> string_literal_data_offset d \<or>
         string_literal_data_offset d
           + (packed_size d + (4 - (string_literal_data_offset d + packed_size d) mod 4) mod 4)
         \<le> string_literal_offset d"
  shows "\<exists>d' out d2. save d = Inr (d', out) \<and> parse out = Inr d2 \<and>
           string_literal_count d2 = string_literal_count d \<and>
           str_bytes d2 = str_bytes d \<and> get_strings d2 = get_strings d"
proof -
  let ?sldo = "string_literal_data_offset d" and ?oc = "packed_size d"
  let ?p = "padding_needed ?sldo ?oc"
  from assms(3) have sz: "?oc + ?p < 2 ^ 32" by (simp add: padding_needed_def)
  note ok = save_ok [OF assms(1,2) sz]
  from parsed_header [OF assms(1,2)] obtain h where h: "parse_header (file_data d) = Inr h"
    "h_string_literal_offset h = string_literal_offset d"
    "h_string_literal_table_size h div 8 = length (str_bytes d)"
    by blast
  have L3: "?sldo \<le> length (file_data d)" using assms(6) ok(3) by simp
  have L4: "string_literal_offset d + 8 * length (str_bytes d) \<le> ?sldo \<or>
            ?sldo + (?oc + ?p) \<le> string_literal_offset d"
    using assms(7) ok(4) by (simp add: padding_needed_def)
  have "parse (save_bytes d) = Inr (reloaded d (h_version h))"
    using ok(1) sz h assms(4,5) L3 L4 by (rule save_bytes_reload)
  moreover have "string_literal_count (reloaded d (h_version h)) = string_literal_count d"
    "str_bytes (reloaded d (h_version h)) = str_bytes d"
    using ok(4) by (simp_all add: reloaded_def)
  ultimately show ?thesis
    using ok(2) get_strings_reloaded [of d "h_version h"] by auto
qed

theorem save_parse_roundtrip_witness:
  "parse ex_two = Inr doc_two \<and>
   (\<exists>d' out d2. save (doc_two\<lparr>str_bytes := [[104,101,108,108,111,0], [0x62, 0]]\<rparr>) = Inr (d', out) \<and>
      parse out = Inr d2 \<and> get_strings d2 = [[104,101,108,108,111], [0x62]])"
proof -
  let ?d = "doc_two\<lparr>str_bytes := [[104,101,108,108,111,0], [0x62, 0]]\<rparr>"
  have d: "?d = set_strings doc_two [(0, [104,101,108,108,111])]"
    by (simp add: set_string_def encode_cp_def doc_two_def)
  have v: "string_literal_data_offset ?d = 40" "packed_size ?d = 8"
    "string_literal_offset ?d = 24" "string_literal_count ?d = 2" "length ex_two = 44"
    by (simp_all add: doc_two_def packed_size_def ex_two_def)
  have g: "get_strings ?d = [[104,101,108,108,111], [0x62]]"
    by (simp add: get_strings_def decode_text_def rstrip_def)
  have "\<exists>d' out d2. save ?d = Inr (d', out) \<and> parse out = Inr d2 \<and>
           string_literal_count d2 = string_literal_count ?d \<and>
           str_bytes d2 = str_bytes ?d \<and> get_strings d2 = get_strings ?d"
    by (rule save_parse_roundtrip [OF parse_ex_two d]) (simp_all add: v)
  with g parse_ex_two show ?thesis by auto
qed

section \<open>Saving again\<close>

text \<open>
  C6, as the specification has it, fails in both of its forms. Reading back: in
  \<open>ex_share\<close> the strings \<^verbatim>\<open>hi\<close> and \<^verbatim>\<open>i\<close> share their last bytes, before the
  descriptor table. \<^verbatim>\<open>save\<close> needs five bytes and three of padding for them and
  writes over the first descriptor; the object read back has an empty first string, and
  \<^verbatim>\<open>save\<close> on it returns other bytes (the size at byte 20 is 4, not 8). Saving twice:
  \<open>ex_beyond\<close> has 32 bytes and its string data is said to start at byte 36; after
  its string is set to \<^verbatim>\<open>abc\<close>, \<^verbatim>\<open>save\<close> appends the four bytes at the end of the
  buffer (a slice assignment past the end appends) and returns 36 bytes, and \<^verbatim>\<open>save\<close>
  on the saved object appends them again and returns 40.
\<close>

theorem save_idempotent_counterexample:
  "parse ex_share = Inr doc_share \<and>
   (\<exists>d'. save doc_share = Inr (d', out_share)) \<and>
   parse out_share = Inr doc_share2 \<and>
   (\<exists>d'. save doc_share2 = Inr (d', out_share2)) \<and>
   out_share ! 20 = 8 \<and> out_share2 ! 20 = 4 \<and>
   parse ex_beyond = Inr doc_beyond \<and>
   set_string doc_beyond 0 [0x61, 0x62, 0x63] = Inr (doc_beyond\<lparr>str_bytes := [[0x61, 0x62, 0x63, 0]]\<rparr>) \<and>
   save (doc_beyond\<lparr>str_bytes := [[0x61, 0x62, 0x63, 0]]\<rparr>) = Inr (doc_beyond_saved, out_beyond) \<and>
   (\<exists>d'. save doc_beyond_saved = Inr (d', out_beyond @ [0x61, 0x62, 0x63, 0]))"
  by (simp add: parse_ex_share save_doc_share parse_out_share save_doc_share2
        parse_ex_beyond set_beyond save_beyond save_beyond_saved)
     (simp add: out_share_def out_share2_def)

text \<open>
  C6, amended. For a loaded object (edited or not) whose string data starts inside the
  buffer and whose padded size fits 32 bits, \<^verbatim>\<open>save\<close> called a second time on the
  saved object returns the same bytes and leaves the object as it is. When moreover the
  descriptor table and the string data start at byte 24 or later and the table lies
  wholly before the string data or wholly after the repacked and padded string data,
  \<^verbatim>\<open>parse\<close> reads the bytes back into an object on which \<^verbatim>\<open>save\<close> returns the same
  bytes.
\<close>

theorem save_idempotent:
  assumes "parse f = Inr d0" and "d = set_strings d0 calls"
    and "packed_size d + (4 - (string_literal_data_offset d + packed_size d) mod 4) mod 4 < 2 ^ 32"
    and "string_literal_data_offset d \<le> length f"
  shows "\<exists>d' out. save d = Inr (d', out) \<and> save d' = Inr (d', out) \<and>
           (24 \<le> string_literal_offset d \<and> 24 \<le> string_literal_data_offset d \<and>
            (string_literal_offset d + 8 * string_literal_count d \<le> string_literal_data_offset d \<or>
             string_literal_data_offset d
               + (packed_size d + (4 - (string_literal_data_offset d + packed_size d) mod 4) mod 4)
             \<le> string_literal_offset d)
            \<longrightarrow> (\<exists>d2 d3. parse out = Inr d2 \<and> save d2 = Inr (d3, out)))"
proof -
  let ?sldo = "string_literal_data_offset d" and ?oc = "packed_size d"
  let ?slo = "string_literal_offset d" and ?sb = "str_bytes d"
  let ?p = "padding_needed ?sldo ?oc"
  let ?d' = "d\<lparr>string_literals := repack 0 ?sb, file_data := save_bytes d\<rparr>"
  from assms(3) have sz: "?oc + ?p < 2 ^ 32" by (simp add: padding_needed_def)
  note ok = save_ok [OF assms(1,2) sz]
  from ok(1) have l24: "24 \<le> length (file_data d)" and dip: "data_info_position d = 16"
    and tb: "?sb = [] \<or> ?slo + 8 * length ?sb \<le> length (file_data d)"
    and s32: "?sldo < 2 ^ 32"
    by (auto simp: doc_inv_def)
  have L3: "?sldo \<le> length (file_data d)" using assms(4) ok(3) by simp
  \<comment> \<open>the four writes, made again, change nothing\<close>
  have again: "rewrite (save_bytes d) ?slo ?sldo ?sb = save_bytes d"
    unfolding save_bytes_rewrite using l24 L3 tb by (rule rewrite_again)
  \<comment> \<open>the object that save has left\<close>
  have i': "doc_inv ?d'"
    using l24 dip tb s32 length_save_bytes_ge [of d] by (auto simp: doc_inv_def)
  have "save_bytes ?d' = rewrite (file_data ?d') (string_literal_offset ?d')
      (string_literal_data_offset ?d') (str_bytes ?d')"
    by (rule save_bytes_rewrite)
  also have "\<dots> = rewrite (save_bytes d) ?slo ?sldo ?sb" by simp
  also have "\<dots> = save_bytes d" by (rule again)
  finally have f': "save_bytes ?d' = save_bytes d" .
  have z': "packed_size ?d' + padding_needed (string_literal_data_offset ?d') (packed_size ?d') < 2 ^ 32"
    using sz by (simp add: packed_size_def)
  have s': "save ?d' = Inr (?d', save_bytes d)"
    using save_eq [OF i' z'] by (simp add: f')
  \<comment> \<open>the object read back\<close>
  have rl: "\<exists>d2 d3. parse (save_bytes d) = Inr d2 \<and> save d2 = Inr (d3, save_bytes d)"
    if L1: "24 \<le> ?slo" and L2: "24 \<le> ?sldo"
      and L4: "?slo + 8 * string_literal_count d \<le> ?sldo \<or> ?sldo + (?oc + ?p) \<le> ?slo"
  proof -
    from parsed_header [OF assms(1,2)] obtain h where h: "parse_header (file_data d) = Inr h"
      "h_string_literal_offset h = ?slo"
      "h_string_literal_table_size h div 8 = length ?sb"
      by blast
    let ?d2 = "reloaded d (h_version h)"
    have L4': "?slo + 8 * length ?sb \<le> ?sldo \<or> ?sldo + (?oc + ?p) \<le> ?slo"
      using L4 ok(4) by simp
    have p2: "parse (save_bytes d) = Inr ?d2"
      using ok(1) sz h L1 L2 L3 L4' by (rule save_bytes_reload)
    have i2: "doc_inv ?d2" using p2 by (rule doc_inv_parse)
    have "save_bytes ?d2 = rewrite (file_data ?d2) (string_literal_offset ?d2)
        (string_literal_data_offset ?d2) (str_bytes ?d2)"
      by (rule save_bytes_rewrite)
    also have "\<dots> = rewrite (save_bytes d) ?slo ?sldo ?sb" by (simp add: reloaded_def)
    also have "\<dots> = save_bytes d" by (rule again)
    finally have f2: "save_bytes ?d2 = save_bytes d" .
    have z2: "packed_size ?d2 + padding_needed (string_literal_data_offset ?d2) (packed_size ?d2) < 2 ^ 32"
      using sz by (simp add: reloaded_def packed_size_def)
    from save_eq [OF i2 z2] have "\<exists>d3. save ?d2 = Inr (d3, save_bytes d)" by (simp add: f2)
    with p2 show ?thesis by blast
  qed
  show ?thesis
    using ok(2) s' rl by (simp add: padding_needed_def)
qed

theorem save_idempotent_witness:
  "parse ex_long = Inr doc_long \<and>
   (\<exists>d' out d2 d3. save (doc_long\<lparr>str_bytes := [[0x61, 0]]\<rparr>) = Inr (d', out) \<and>
      save d' = Inr (d', out) \<and> parse out = Inr d2 \<and> save d2 = Inr (d3, out) \<and> out ! 20 = 4)"
proof -
  let ?d = "doc_long\<lparr>str_bytes := [[0x61, 0]]\<rparr>"
  have d: "?d = set_strings doc_long [(0, [0x61])]" by (rule set_short [symmetric])
  have v: "string_literal_data_offset ?d = 32" "packed_size ?d = 2"
    "string_literal_offset ?d = 24" "string_literal_count ?d = 1" "length ex_long = 40"
    by (simp_all add: doc_long_def packed_size_def ex_long_def)
  have "\<exists>d' out. save ?d = Inr (d', out) \<and> save d' = Inr (d', out) \<and>
           (24 \<le> string_literal_offset ?d \<and> 24 \<le> string_literal_data_offset ?d \<and>
            (string_literal_offset ?d + 8 * string_literal_count ?d \<le> string_literal_data_offset ?d \<or>
             string_literal_data_offset ?d
               + (packed_size ?d + (4 - (string_literal_data_offset ?d + packed_size ?d) mod 4) mod 4)
             \<le> string_literal_offset ?d)
            \<longrightarrow> (\<exists>d2 d3. parse out = Inr d2 \<and> save d2 = Inr (d3, out)))"
    by (rule save_idempotent [OF parse_ex_long d]) (simp_all add: v)
  then obtain d' out d2 d3 where s: "save ?d = Inr (d', out)" "save d' = Inr (d', out)"
    "parse out = Inr d2" "save d2 = Inr (d3, out)"
    by (auto simp: v)
  have "save ?d = Inr (?d\<lparr>string_literals := [\<lparr>length_lit = 2, offset_lit = 0\<rparr>],
      file_data := [0xAF,0x1B,0xB1,0xFA, 1,0,0,0, 24,0,0,0, 8,0,0,0, 32,0,0,0, 4,0,0,0,
              2,0,0,0, 0,0,0,0,  0x61,0,0,0,0x65,0x66,0x67,0]\<rparr>,
      [0xAF,0x1B,0xB1,0xFA, 1,0,0,0, 24,0,0,0, 8,0,0,0, 32,0,0,0, 4,0,0,0,
              2,0,0,0, 0,0,0,0,  0x61,0,0,0,0x65,0x66,0x67,0])"
    by (simp add: save_simps doc_long_def ex_long_def)
  with s(1) have "out ! 20 = 4" by auto
  with s parse_ex_long show ?thesis by blast
qed

end
